theory Spec2Isabelle
  imports Complex_Main "HOL-Library.Char_ord" "HOL-Library.List_Lexorder"
    "HOL-Library.Product_Lexorder" "HOL-Library.AList"
begin

section \<open>Data model of flood.py\<close>

text \<open>
  Python floats are modelled by exact reals. The two places where the program itself
  produces an infinite float (the bounds of a \<open>FloatRange\<close> and the default of
  \<open>river_flood.get(river, inf)\<close>) use \<open>pyfloat\<close>, a real extended by the two infinities,
  with Python's comparisons. NaN is not modelled.
\<close>

datatype pyfloat = NegInf | Finite real | PosInf

fun fle :: "pyfloat \<Rightarrow> pyfloat \<Rightarrow> bool" where
  "fle NegInf _ = True"
| "fle (Finite a) NegInf = False"
| "fle (Finite a) (Finite b) = (a \<le> b)"
| "fle (Finite a) PosInf = True"
| "fle PosInf PosInf = True"
| "fle PosInf _ = False"

definition flt :: "pyfloat \<Rightarrow> pyfloat \<Rightarrow> bool" where
  "flt a b = (fle a b \<and> a \<noteq> b)"

text \<open>Python's \<open>min(a, b)\<close>: the first argument unless the second is smaller.\<close>

definition fmin :: "pyfloat \<Rightarrow> pyfloat \<Rightarrow> pyfloat" where
  "fmin a b = (if flt b a then b else a)"

record Record =
  city_name :: string
  dt :: int
  lat :: real
  lon :: real
  rain_1h :: "real option"
  weather_description :: string

record Location =
  city_name :: string
  lat :: real
  lon :: real

record Data =
  loc :: Location
  dt_from :: int
  dt_to :: int
  rain_24h :: "real list"

datatype SkillLevel = NONE | BASIC_SKILLS | INTERMEDIATE_SKILLS | ADVANCED_SKILLS

text \<open>\<open>SkillLevel\<close> is an \<open>int\<close> enumeration: \<open>NONE = 0\<close> and \<open>enum.auto()\<close> counts on.\<close>

fun skill_value :: "SkillLevel \<Rightarrow> int" where
  "skill_value NONE = 0"
| "skill_value BASIC_SKILLS = 1"
| "skill_value INTERMEDIATE_SKILLS = 2"
| "skill_value ADVANCED_SKILLS = 3"

text \<open>Python's \<open>max(a, b)\<close>: the first argument unless the second is greater.\<close>

definition skill_max :: "SkillLevel \<Rightarrow> SkillLevel \<Rightarrow> SkillLevel" where
  "skill_max a b = (if skill_value b > skill_value a then b else a)"

record FloatRange =
  start :: pyfloat
  stop :: pyfloat
  inc :: bool

definition check :: "FloatRange \<Rightarrow> real \<Rightarrow> bool" where
  "check self v =
     (if inc self then fle (start self) (Finite v) \<and> fle (Finite v) (stop self)
      else flt (start self) (Finite v) \<and> flt (Finite v) (stop self))"

record RainToSkill =
  rain :: FloatRange
  weather :: string
  skill :: SkillLevel

section \<open>The environment of main\<close>

type_synonym Point = "real \<times> real"

text \<open>
  A river is a shapely \<open>LineString\<close>; the program uses its two queries only, which are
  taken as they come from the library.
\<close>

record LineString =
  distance :: "Point \<Rightarrow> real"
  project :: "Point \<Rightarrow> real"

text \<open>
  What \<open>main\<close> reads from outside: the module tables \<open>RIVERS\<close> and \<open>RAIN_TO_SKILLS\<close>
  (loaded from data files), the two command line arguments, pyproj's
  \<open>PROJECT.transform\<close> and \<open>datetime.utcfromtimestamp\<close>, which gives the printed date or
  raises (\<open>None\<close>) for a timestamp outside the platform's range.
\<close>

record Env =
  RIVERS :: "string \<Rightarrow> LineString"
  RAIN_TO_SKILLS :: "RainToSkill list"
  rain_threshold :: real
  river_margin :: real
  transform :: "real \<Rightarrow> real \<Rightarrow> Point"
  utcfromtimestamp :: "int \<Rightarrow> string option"

text \<open>The keys of the dict \<open>RIVERS\<close>, in the order of the dict display.\<close>

definition RIVER_NAMES :: "string list" where
  "RIVER_NAMES = [''Saar'', ''Blies'']"

datatype error =
    ContinuityError Location int Record
  | IndexError
  | TimestampError int

record State =
  data :: "(Location \<times> Data) list"
  rain_flood :: "Location set"
  river_flood :: "string \<rightharpoonup> pyfloat"
  printed :: "(Location \<times> SkillLevel \<times> string) list"

section \<open>Sorting and grouping\<close>

text \<open>The sort key \<open>x._replace(rain_1h = 0)\<close>: the whole tuple with the rain set to 0.\<close>

definition sort_keyfn :: "Record \<Rightarrow> string \<times> int \<times> real \<times> real \<times> int \<times> string" where
  "sort_keyfn x = (Record.city_name x, dt x, Record.lat x, Record.lon x, 0, weather_description x)"

text \<open>The group key \<open>x[:-1]\<close>: every field but the last, the weather description.\<close>

definition group_keyfn :: "Record \<Rightarrow> string \<times> int \<times> real \<times> real \<times> real option" where
  "group_keyfn x = (Record.city_name x, dt x, Record.lat x, Record.lon x, rain_1h x)"

text \<open>\<open>itertools.groupby\<close>: the runs of consecutive elements with equal keys.\<close>

function groupby :: "('a \<Rightarrow> 'k) \<Rightarrow> 'a list \<Rightarrow> ('k \<times> 'a list) list" where
  "groupby key [] = []"
| "groupby key (x # xs) =
     (key x, x # takeWhile (\<lambda>y. key y = key x) xs)
       # groupby key (dropWhile (\<lambda>y. key y = key x) xs)"
  by pat_completeness auto
termination
  by (relation "measure (\<lambda>(key, xs). length xs)")
     (auto simp: length_dropWhile_le less_Suc_eq_le)

definition groups :: "Record list \<Rightarrow> Record list list" where
  "groups records = map snd (groupby group_keyfn (sort_key sort_keyfn records))"

section \<open>The first pass of main: one iteration of the loop over the groups\<close>

definition location_of :: "Record \<Rightarrow> Location" where
  "location_of r =
     \<lparr>Location.city_name = Record.city_name r, lat = Record.lat r, lon = Record.lon r\<rparr>"

text \<open>
  Lines 163 to 169: the window of the group's location is opened, or extended by one
  hour, or the run stops with the exception of line 169.
\<close>

definition open_or_extend :: "(Location \<times> Data) list \<Rightarrow> Record \<Rightarrow> error + Data" where
  "open_or_extend dat r =
     (let l = location_of r in
      case map_of dat l of
        None \<Rightarrow> Inr \<lparr>loc = l, dt_from = dt r - 3600, dt_to = dt r, rain_24h = []\<rparr>
      | Some d \<Rightarrow>
          if l \<noteq> loc d \<or> dt r = dt_to d + 3600 then Inr (d\<lparr>dt_to := dt r\<rparr>)
          else Inl (ContinuityError l (dt_to d + 3600) r))"

text \<open>Lines 170 to 172: \<open>float(rec.rain_1h or 0)\<close> is appended, and the oldest entry dropped.\<close>

definition rain_or_0 :: "Record \<Rightarrow> real" where
  "rain_or_0 r = (case rain_1h r of None \<Rightarrow> 0 | Some v \<Rightarrow> v)"

definition append_rain :: "Data \<Rightarrow> Record \<Rightarrow> Data" where
  "append_rain d r =
     (let xs = rain_24h d @ [rain_or_0 r] in
      d\<lparr>rain_24h := (if length xs > 24 then tl xs else xs)\<rparr>)"

text \<open>\<open>river_flood.get(river, inf)\<close>\<close>

definition get_inf :: "(string \<rightharpoonup> pyfloat) \<Rightarrow> string \<Rightarrow> pyfloat" where
  "get_inf rf river = (case rf river of None \<Rightarrow> PosInf | Some a \<Rightarrow> a)"

definition point_of :: "Env \<Rightarrow> Location \<Rightarrow> Point" where
  "point_of env l = transform env (Location.lat l) (Location.lon l)"

text \<open>Lines 177 to 179, the body of the loop over the rivers and the loop.\<close>

definition update_anchor :: "Env \<Rightarrow> Point \<Rightarrow> string \<Rightarrow> (string \<rightharpoonup> pyfloat) \<Rightarrow> (string \<rightharpoonup> pyfloat)" where
  "update_anchor env p river rf =
     (if distance (RIVERS env river) p < river_margin env
      then rf(river \<mapsto> fmin (get_inf rf river) (Finite (project (RIVERS env river) p)))
      else rf)"

definition update_anchors :: "Env \<Rightarrow> Point \<Rightarrow> (string \<rightharpoonup> pyfloat) \<Rightarrow> (string \<rightharpoonup> pyfloat)" where
  "update_anchors env p rf = fold (update_anchor env p) RIVER_NAMES rf"

text \<open>Lines 180 to 184: every record of the group against every rule.\<close>

definition rule_step :: "real \<Rightarrow> Record \<Rightarrow> RainToSkill \<Rightarrow> SkillLevel \<Rightarrow> SkillLevel" where
  "rule_step rain24 r r2s s =
     (if weather r2s = weather_description r \<and> check (rain r2s) rain24
      then skill_max s (skill r2s) else s)"

definition best_skill :: "RainToSkill list \<Rightarrow> Record list \<Rightarrow> real \<Rightarrow> SkillLevel" where
  "best_skill rules recs rain24 =
     fold (\<lambda>r s. fold (rule_step rain24 r) rules s) recs NONE"

text \<open>
  Lines 160 to 187. After the loop over \<open>recs\<close> the variable \<open>rec\<close> is the last record
  of the group, whose timestamp is printed.
\<close>

definition step :: "Env \<Rightarrow> State \<Rightarrow> Record list \<Rightarrow> error + State" where
  "step env st recs =
     (case recs of
        [] \<Rightarrow> Inl IndexError
      | r # _ \<Rightarrow>
          (case open_or_extend (data st) r of
             Inl e \<Rightarrow> Inl e
           | Inr d0 \<Rightarrow>
               let l = location_of r;
                   d = append_rain d0 r;
                   rain24 = sum_list (rain_24h d);
                   flooded = (rain24 \<ge> rain_threshold env);
                   rain_flood' = (if flooded then insert l (rain_flood st) else rain_flood st);
                   river_flood' = (if flooded then update_anchors env (point_of env l) (river_flood st)
                                   else river_flood st);
                   s = best_skill (RAIN_TO_SKILLS env) recs rain24
               in if s \<noteq> NONE
                  then (case utcfromtimestamp env (dt (last recs)) of
                          None \<Rightarrow> Inl (TimestampError (dt (last recs)))
                        | Some date \<Rightarrow>
                            Inr \<lparr>data = AList.update l d (data st), rain_flood = rain_flood',
                                 river_flood = river_flood', printed = printed st @ [(l, s, date)]\<rparr>)
                  else Inr \<lparr>data = AList.update l d (data st), rain_flood = rain_flood',
                            river_flood = river_flood', printed = printed st\<rparr>))"

fun process :: "Env \<Rightarrow> State \<Rightarrow> Record list list \<Rightarrow> error + State" where
  "process env st [] = Inr st"
| "process env st (g # gs) =
     (case step env st g of Inl e \<Rightarrow> Inl e | Inr st' \<Rightarrow> process env st' gs)"

definition init :: State where
  "init = \<lparr>data = [], rain_flood = {}, river_flood = Map.empty, printed = []\<rparr>"

definition pass1 :: "Env \<Rightarrow> Record list \<Rightarrow> error + State" where
  "pass1 env records = process env init (groups records)"

section \<open>The second pass of main\<close>

text \<open>Lines 192 to 198: the pairs printed under FLOOD BY RIVER, in order.\<close>

definition near_rivers :: "Env \<Rightarrow> (string \<rightharpoonup> pyfloat) \<Rightarrow> Location \<Rightarrow> (Location \<times> string) list" where
  "near_rivers env rf l =
     (let p = point_of env l in
      map (\<lambda>river. (l, river))
        (filter (\<lambda>river. distance (RIVERS env river) p < river_margin env
                   \<and> fle (get_inf rf river) (Finite (project (RIVERS env river) p)))
           RIVER_NAMES))"

definition pass2 :: "Env \<Rightarrow> State \<Rightarrow> (Location \<times> string) list" where
  "pass2 env st =
     concat (map (\<lambda>(l, d). if l \<in> rain_flood st then [] else near_rivers env (river_flood st) l)
               (data st))"

text \<open>
  The whole of main: the skill reports, the locations flooded by rain and the pairs
  flooded by river, or the exception that stopped the run.
\<close>

definition main ::
  "Env \<Rightarrow> Record list \<Rightarrow>
     error + ((Location \<times> SkillLevel \<times> string) list \<times> Location set \<times> (Location \<times> string) list)" where
  "main env records =
     (case pass1 env records of
        Inl e \<Rightarrow> Inl e
      | Inr st \<Rightarrow> Inr (printed st, rain_flood st, pass2 env st))"

section \<open>A small run: one straight river, four places\<close>

text \<open>
  The Saar of the example runs along the x axis and the Blies far away along the line
  \<open>y = 100000\<close>; the projection of a place is \<open>(lat, lon)\<close> itself. The rule table is the
  one of the skill example: 0-10 and 10-inf, both for the weather Rain.
\<close>

definition example_rules :: "RainToSkill list" where
  "example_rules =
     [\<lparr>rain = \<lparr>start = Finite 0, stop = Finite 10, inc = True\<rparr>,
       weather = ''Rain'', skill = BASIC_SKILLS\<rparr>,
      \<lparr>rain = \<lparr>start = Finite 10, stop = PosInf, inc = True\<rparr>,
       weather = ''Rain'', skill = ADVANCED_SKILLS\<rparr>]"

definition example_env :: Env where
  "example_env =
     \<lparr>RIVERS = (\<lambda>name. if name = ''Saar''
                       then \<lparr>distance = (\<lambda>(x, y). \<bar>y\<bar>), project = (\<lambda>(x, y). x)\<rparr>
                       else \<lparr>distance = (\<lambda>(x, y). \<bar>y - 100000\<bar>), project = (\<lambda>(x, y). x)\<rparr>),
      RAIN_TO_SKILLS = example_rules,
      rain_threshold = 50,
      river_margin = 1000,
      transform = (\<lambda>la lo. (la, lo)),
      utcfromtimestamp = (\<lambda>t. Some [])\<rparr>"

definition observation ::
  "string \<Rightarrow> int \<Rightarrow> real \<Rightarrow> real \<Rightarrow> real option \<Rightarrow> string \<Rightarrow> Record" where
  "observation c t la lo r w =
     \<lparr>Record.city_name = c, dt = t, lat = la, lon = lo, rain_1h = r, weather_description = w\<rparr>"

definition place :: "string \<Rightarrow> real \<Rightarrow> real \<Rightarrow> Location" where
  "place c la lo = \<lparr>Location.city_name = c, lat = la, lon = lo\<rparr>"

text \<open>
  A at position 1000 gets 60 mm, B at 3000 and C at 500 get 20 mm, and D at 4000 lies at
  distance 1000 from the river, which is the margin.
\<close>

definition example_records :: "Record list" where
  "example_records =
     [observation ''B'' 0 3000 500 (Some 20) ''Clouds'',
      observation ''A'' 0 1000 0 (Some 60) ''Rain'',
      observation ''D'' 0 4000 1000 None ''Clouds'',
      observation ''C'' 0 500 (-200) (Some 20) ''Clouds'']"

text \<open>One place observed every hour from 0 to n, with i mm in hour i.\<close>

definition example_hours :: "int \<Rightarrow> Record list list" where
  "example_hours n =
     map (\<lambda>i. [observation ''A'' (3600 * i) 1000 0 (Some (of_int i)) ''Clouds'']) [0..n]"

text \<open>The state in which the first pass leaves the example.\<close>

definition example_state :: State where
  "example_state =
     \<lparr>data =
        [(place ''A'' 1000 0, \<lparr>loc = place ''A'' 1000 0, dt_from = - 3600, dt_to = 0, rain_24h = [60]\<rparr>),
         (place ''B'' 3000 500, \<lparr>loc = place ''B'' 3000 500, dt_from = - 3600, dt_to = 0, rain_24h = [20]\<rparr>),
         (place ''C'' 500 (-200), \<lparr>loc = place ''C'' 500 (-200), dt_from = - 3600, dt_to = 0, rain_24h = [20]\<rparr>),
         (place ''D'' 4000 1000, \<lparr>loc = place ''D'' 4000 1000, dt_from = - 3600, dt_to = 0, rain_24h = [0]\<rparr>)],
      rain_flood = {place ''A'' 1000 0},
      river_flood = [''Saar'' \<mapsto> Finite 1000],
      printed = [(place ''A'' 1000 0, ADVANCED_SKILLS, [])]\<rparr>"

text \<open>The window of A in that state.\<close>

definition example_window :: Data where
  "example_window = \<lparr>loc = place ''A'' 1000 0, dt_from = - 3600, dt_to = 0, rain_24h = [60]\<rparr>"

section \<open>The history of a window\<close>

text \<open>
  The groups of one location among the groups processed so far, and what the window of
  the location holds after them: the location, a start one hour before the first group,
  an end at the last group, timestamps one hour apart, and the rain of the last 24.
\<close>

definition groups_at :: "Location \<Rightarrow> Record list list \<Rightarrow> Record list list" where
  "groups_at l gs = filter (\<lambda>g. location_of (hd g) = l) gs"

definition window_ok :: "Location \<Rightarrow> Record list list \<Rightarrow> Data \<Rightarrow> bool" where
  "window_ok l obs d \<longleftrightarrow>
     loc d = l \<and> obs \<noteq> []
     \<and> dt_to d = dt_from d + 3600 * int (length obs)
     \<and> (\<forall>i<length obs. dt (hd (obs ! i)) = dt_from d + 3600 * (int i + 1))
     \<and> rain_24h d = map (rain_or_0 \<circ> hd) (drop (length obs - 24) obs)"

definition windows_ok :: "Record list list \<Rightarrow> State \<Rightarrow> bool" where
  "windows_ok gs st \<longleftrightarrow>
     (\<forall>l. case map_of (data st) l of
             None \<Rightarrow> groups_at l gs = []
           | Some d \<Rightarrow> window_ok l (groups_at l gs) d)"

text \<open>Every recorded anchor is a finite float.\<close>

definition finite_anchors :: "(string \<rightharpoonup> pyfloat) \<Rightarrow> bool" where
  "finite_anchors rf = (\<forall>river a. rf river = Some a \<longrightarrow> (\<exists>x. a = Finite x))"


section \<open>The extended floats are ordered as the floats are\<close>

lemma fle_refl: "fle a a"
  by (cases a) simp_all

lemma fle_trans: "fle a b \<Longrightarrow> fle b c \<Longrightarrow> fle a c"
  by (cases a; cases b; cases c) simp_all

lemma fle_linear: "fle a b \<or> fle b a"
  by (cases a; cases b) auto

lemma fle_antisym: "fle a b \<Longrightarrow> fle b a \<Longrightarrow> a = b"
  by (cases a; cases b) simp_all

lemma fmin_le1: "fle (fmin a b) a"
  by (simp add: fmin_def flt_def fle_refl)

lemma fmin_is_min: "fmin a b = (if fle a b then a else b)"
  using fle_linear [of a b] fle_antisym [of a b] by (auto simp: fmin_def flt_def)

section \<open>What one iteration and the whole loop do to the state\<close>

lemma step_Inr:
  assumes "step env st recs = Inr st'"
  obtains r rest d0 where "recs = r # rest"
    and "open_or_extend (data st) r = Inr d0"
    and "data st' = AList.update (location_of r) (append_rain d0 r) (data st)"
    and "rain_flood st' =
           (if sum_list (rain_24h (append_rain d0 r)) \<ge> rain_threshold env
            then insert (location_of r) (rain_flood st) else rain_flood st)"
    and "river_flood st' =
           (if sum_list (rain_24h (append_rain d0 r)) \<ge> rain_threshold env
            then update_anchors env (point_of env (location_of r)) (river_flood st)
            else river_flood st)"
  using assms
  by (auto simp: step_def Let_def split: list.splits sum.splits if_splits option.splits)

lemma process_append:
  "process env st (gs @ hs) =
     (case process env st gs of Inl e \<Rightarrow> Inl e | Inr st' \<Rightarrow> process env st' hs)"
  by (induction gs arbitrary: st) (auto split: sum.splits)

lemma process_snoc:
  "process env st (gs @ [g]) =
     (case process env st gs of Inl e \<Rightarrow> Inl e | Inr st' \<Rightarrow> step env st' g)"
  by (simp add: process_append split: sum.splits)

section \<open>Groups are the runs of equal keys\<close>

lemma groupby_concat: "concat (map snd (groupby f xs)) = xs"
  by (induction f xs rule: groupby.induct) simp_all

lemma groupby_group:
  "(k, g) \<in> set (groupby f xs) \<Longrightarrow> g \<noteq> [] \<and> (\<forall>x\<in>set g. f x = k)"
proof (induction f xs rule: groupby.induct)
  case (1 f)
  then show ?case by simp
next
  case (2 f x xs)
  from "2.prems" consider
      (here) "k = f x" "g = x # takeWhile (\<lambda>y. f y = f x) xs"
    | (later) "(k, g) \<in> set (groupby f (dropWhile (\<lambda>y. f y = f x) xs))"
    by auto
  then show ?case
  proof cases
    case here
    have "f y = k" if "y \<in> set g" for y
    proof -
      from that here have "y = x \<or> y \<in> set (takeWhile (\<lambda>y. f y = f x) xs)" by simp
      then show ?thesis
      proof
        assume "y = x"
        with here show ?thesis by simp
      next
        assume "y \<in> set (takeWhile (\<lambda>y. f y = f x) xs)"
        from set_takeWhileD [OF this] have "f y = f x" by simp
        with here show ?thesis by simp
      qed
    qed
    moreover from here have "g \<noteq> []" by simp
    ultimately show ?thesis by blast
  next
    case later
    then show ?thesis by (rule "2.IH")
  qed
qed

lemma groupby_hd_key:
  "groupby f xs = (k, g) # rest \<Longrightarrow> xs \<noteq> [] \<and> k = f (hd xs)"
  by (cases xs) simp_all

lemma groupby_adjacent:
  "Suc i < length (groupby f xs) \<Longrightarrow> fst (groupby f xs ! i) \<noteq> fst (groupby f xs ! Suc i)"
proof (induction f xs arbitrary: i rule: groupby.induct)
  case (1 f)
  then show ?case by simp
next
  case (2 f x xs)
  let ?ys = "dropWhile (\<lambda>y. f y = f x) xs"
  show ?case
  proof (cases i)
    case 0
    with "2.prems" have ne: "groupby f ?ys \<noteq> []" by auto
    then obtain k g rest where e: "groupby f ?ys = (k, g) # rest"
      by (cases "groupby f ?ys") auto
    from groupby_hd_key [OF e] have ys: "?ys \<noteq> []" and k: "k = f (hd ?ys)"
      by simp_all
    from ys have "f (hd ?ys) \<noteq> f x"
      using hd_dropWhile [of "\<lambda>y. f y = f x" xs] by simp
    with 0 e k show ?thesis by simp
  next
    case (Suc j)
    with "2.prems" have "Suc j < length (groupby f ?ys)" by simp
    from "2.IH" [OF this] Suc show ?thesis by simp
  qed
qed

lemma groups_nonempty: "g \<in> set (groups records) \<Longrightarrow> g \<noteq> []"
proof -
  assume "g \<in> set (groups records)"
  then have "g \<in> snd ` set (groupby group_keyfn (sort_key sort_keyfn records))"
    unfolding groups_def by (simp only: set_map)
  then obtain kg where "kg \<in> set (groupby group_keyfn (sort_key sort_keyfn records))" "g = snd kg"
    by (rule imageE)
  then have "(fst kg, g) \<in> set (groupby group_keyfn (sort_key sort_keyfn records))"
    by (simp only: prod.collapse)
  from groupby_group [OF this] show ?thesis by (rule conjunct1)
qed

lemma location_of_key: "group_keyfn x = group_keyfn y \<Longrightarrow> location_of x = location_of y"
  by (simp add: group_keyfn_def location_of_def)

lemma groups_locations: "(location_of \<circ> hd) ` set (groups records) = location_of ` set records"
proof -
  let ?S = "sort_key sort_keyfn records"
  let ?G = "groupby group_keyfn ?S"
  have cc: "concat (map snd ?G) = ?S" by (rule groupby_concat)
  have l: "(location_of \<circ> hd) ` set (groups records) \<subseteq> location_of ` set records"
  proof
    fix l assume "l \<in> (location_of \<circ> hd) ` set (groups records)"
    then obtain k g where kg: "(k, g) \<in> set ?G" and l: "l = location_of (hd g)"
      by (auto simp: groups_def)
    from groupby_group [OF kg] have "g \<noteq> []" by (rule conjunct1)
    then have "hd g \<in> set g" by simp
    with kg have "hd g \<in> set (concat (map snd ?G))" by force
    then have "hd g \<in> set records" by (simp add: cc)
    with l show "l \<in> location_of ` set records" by blast
  qed
  have r: "location_of ` set records \<subseteq> (location_of \<circ> hd) ` set (groups records)"
  proof
    fix l assume "l \<in> location_of ` set records"
    then obtain x where x: "x \<in> set records" and l: "l = location_of x" by blast
    then have "x \<in> set (concat (map snd ?G))" by (simp add: cc)
    then obtain k g where kg: "(k, g) \<in> set ?G" and xg: "x \<in> set g" by auto
    from groupby_group [OF kg] have ne: "g \<noteq> []" and all: "\<forall>y\<in>set g. group_keyfn y = k"
      by blast+
    from ne have "hd g \<in> set g" by simp
    with all xg have "group_keyfn (hd g) = k" and "group_keyfn x = k" by blast+
    then have "group_keyfn (hd g) = group_keyfn x" by simp
    then have "location_of (hd g) = l" using l location_of_key by blast
    moreover have "g \<in> set (groups records)" using kg by (force simp: groups_def)
    ultimately show "l \<in> (location_of \<circ> hd) ` set (groups records)" by force
  qed
  from l r show ?thesis by blast
qed

section \<open>The locations that main tracks\<close>

lemma step_dom:
  assumes "step env st g = Inr st'"
  shows "fst ` set (data st') = insert (location_of (hd g)) (fst ` set (data st))"
  using assms by (elim step_Inr) (simp add: dom_update)

lemma process_dom:
  "process env st gs = Inr st' \<Longrightarrow>
   fst ` set (data st') = fst ` set (data st) \<union> (location_of \<circ> hd) ` set gs"
proof (induction gs arbitrary: st)
  case Nil then show ?case by simp
next
  case (Cons g gs)
  then obtain st1 where s: "step env st g = Inr st1" and p: "process env st1 gs = Inr st'"
    by (auto split: sum.splits)
  show ?case using Cons.IH [OF p] step_dom [OF s] by auto
qed

lemma pass1_dom: "pass1 env records = Inr st \<Longrightarrow> fst ` set (data st) = location_of ` set records"
  unfolding pass1_def using process_dom [of env init "groups records" st] groups_locations
  by (simp add: init_def)

section \<open>The anchors of the rivers\<close>

lemma update_anchors_at:
  "update_anchors env p rf river =
     (if river \<in> set RIVER_NAMES \<and> distance (RIVERS env river) p < river_margin env
      then Some (fmin (get_inf rf river) (Finite (project (RIVERS env river) p)))
      else rf river)"
  by (simp add: update_anchors_def RIVER_NAMES_def update_anchor_def get_inf_def)

lemma fmin_Finite: "\<exists>x. a = Finite x \<or> a = PosInf \<Longrightarrow> \<exists>x. fmin a (Finite y) = Finite x"
  by (auto simp: fmin_def flt_def)

lemma update_anchors_finite:
  assumes "finite_anchors rf" shows "finite_anchors (update_anchors env p rf)"
  unfolding finite_anchors_def
proof (intro allI impI)
  fix river a assume a: "update_anchors env p rf river = Some a"
  have "\<exists>x. get_inf rf river = Finite x \<or> get_inf rf river = PosInf"
    using assms by (auto simp: get_inf_def finite_anchors_def split: option.splits)
  from fmin_Finite [OF this] a assms show "\<exists>x. a = Finite x"
    by (auto simp: update_anchors_at finite_anchors_def split: if_splits)
qed

lemma step_finite_anchors:
  assumes "step env st g = Inr st'" "finite_anchors (river_flood st)"
  shows "finite_anchors (river_flood st')"
  using assms by (elim step_Inr) (simp add: update_anchors_finite)

lemma process_finite_anchors:
  "process env st gs = Inr st' \<Longrightarrow> finite_anchors (river_flood st) \<Longrightarrow> finite_anchors (river_flood st')"
proof (induction gs arbitrary: st)
  case Nil then show ?case by simp
next
  case (Cons g gs)
  then obtain st1 where s: "step env st g = Inr st1" and p: "process env st1 gs = Inr st'"
    by (auto split: sum.splits)
  show ?case using Cons.IH [OF p] step_finite_anchors [OF s] Cons.prems by blast
qed

lemma pass1_finite_anchors: "pass1 env records = Inr st \<Longrightarrow> finite_anchors (river_flood st)"
  unfolding pass1_def using process_finite_anchors [of env init]
  by (simp add: init_def finite_anchors_def)

lemma pass2_iff:
  "(l, river) \<in> set (pass2 env st) \<longleftrightarrow>
     l \<in> fst ` set (data st) \<and> l \<notin> rain_flood st \<and> river \<in> set RIVER_NAMES
     \<and> distance (RIVERS env river) (point_of env l) < river_margin env
     \<and> fle (get_inf (river_flood st) river) (Finite (project (RIVERS env river) (point_of env l)))"
proof -
  have "(l, river) \<in> set (pass2 env st) \<longleftrightarrow>
          (\<exists>d. (l, d) \<in> set (data st)) \<and> l \<notin> rain_flood st
          \<and> (l, river) \<in> set (near_rivers env (river_flood st) l)"
    unfolding pass2_def by (auto split: if_splits simp: near_rivers_def Let_def)
  moreover have "(\<exists>d. (l, d) \<in> set (data st)) \<longleftrightarrow> l \<in> fst ` set (data st)"
    by force
  moreover have "(l, river) \<in> set (near_rivers env (river_flood st) l) \<longleftrightarrow>
      river \<in> set RIVER_NAMES
      \<and> distance (RIVERS env river) (point_of env l) < river_margin env
      \<and> fle (get_inf (river_flood st) river) (Finite (project (RIVERS env river) (point_of env l)))"
    by (auto simp: near_rivers_def Let_def)
  ultimately show ?thesis by simp
qed

lemma fle_get_inf:
  "finite_anchors rf \<Longrightarrow>
   fle (get_inf rf river) (Finite x) \<longleftrightarrow> (\<exists>a. rf river = Some (Finite a) \<and> a \<le> x)"
proof (cases "rf river")
  case None
  then show ?thesis by (simp add: get_inf_def)
next
  case (Some a)
  assume "finite_anchors rf"
  with Some obtain y where "a = Finite y" by (auto simp: finite_anchors_def)
  with Some show ?thesis by (simp add: get_inf_def)
qed


lemma get_inf_update_anchor_same:
  "get_inf (update_anchor env p river rf) river =
     (if distance (RIVERS env river) p < river_margin env
      then fmin (get_inf rf river) (Finite (project (RIVERS env river) p))
      else get_inf rf river)"
  by (simp add: update_anchor_def get_inf_def)

lemma update_anchor_other:
  "river' \<noteq> river \<Longrightarrow> update_anchor env p river rf river' = rf river'"
  by (simp add: update_anchor_def)

lemma update_anchor_mono: "fle (get_inf (update_anchor env p river rf) r) (get_inf rf r)"
proof (cases "r = river")
  case True
  then show ?thesis
    by (simp add: get_inf_update_anchor_same fmin_le1 fle_refl)
next
  case False
  then have "get_inf (update_anchor env p river rf) r = get_inf rf r"
    by (simp add: get_inf_def update_anchor_other)
  then show ?thesis by (simp add: fle_refl)
qed

lemma fold_update_anchor_mono:
  "fle (get_inf (fold (update_anchor env p) rs rf) r) (get_inf rf r)"
proof (induction rs arbitrary: rf)
  case Nil
  show ?case by (simp add: fle_refl)
next
  case (Cons a rs)
  have "fle (get_inf (fold (update_anchor env p) rs (update_anchor env p a rf)) r)
            (get_inf (update_anchor env p a rf) r)"
    by (rule Cons.IH)
  then show ?case
    using update_anchor_mono fle_trans by auto
qed

lemma step_anchor_mono:
  assumes "step env st g = Inr st'"
  shows "fle (get_inf (river_flood st') r) (get_inf (river_flood st) r)"
  using assms
  by (elim step_Inr) (simp add: update_anchors_def fold_update_anchor_mono fle_refl)

lemma process_anchor_mono:
  "process env st gs = Inr st' \<Longrightarrow> fle (get_inf (river_flood st') r) (get_inf (river_flood st) r)"
proof (induction gs arbitrary: st)
  case Nil
  then show ?case by (simp add: fle_refl)
next
  case (Cons g gs)
  then obtain st1 where s: "step env st g = Inr st1" and p: "process env st1 gs = Inr st'"
    by (auto split: sum.splits)
  show ?case
    using Cons.IH [OF p] step_anchor_mono [OF s] fle_trans by blast
qed


section \<open>The skill of a group\<close>

lemma skill_max_ge1: "skill_value s \<le> skill_value (skill_max s t)"
  by (simp add: skill_max_def)

lemma skill_max_ge2: "skill_value t \<le> skill_value (skill_max s t)"
  by (simp add: skill_max_def)

lemma skill_max_cases: "skill_max s t = s \<or> skill_max s t = t"
  by (simp add: skill_max_def)

lemma rules_fold_ge: "skill_value s \<le> skill_value (fold (rule_step v r) rules s)"
proof (induction rules arbitrary: s)
  case Nil show ?case by simp
next
  case (Cons a rules)
  have "skill_value s \<le> skill_value (rule_step v r a s)"
    by (simp add: rule_step_def skill_max_ge1)
  also have "\<dots> \<le> skill_value (fold (rule_step v r) rules (rule_step v r a s))"
    by (rule Cons.IH)
  finally show ?case by simp
qed

lemma rules_fold_upper:
  "r2s \<in> set rules \<Longrightarrow> weather r2s = weather_description r \<Longrightarrow> check (rain r2s) v \<Longrightarrow>
   skill_value (skill r2s) \<le> skill_value (fold (rule_step v r) rules s)"
proof (induction rules arbitrary: s)
  case Nil then show ?case by simp
next
  case (Cons a rules)
  show ?case
  proof (cases "r2s = a")
    case True
    have "skill_value (skill r2s) \<le> skill_value (rule_step v r a s)"
      using True Cons.prems by (simp add: rule_step_def skill_max_ge2)
    also have "\<dots> \<le> skill_value (fold (rule_step v r) rules (rule_step v r a s))"
      by (rule rules_fold_ge)
    finally show ?thesis by simp
  next
    case False
    then have "r2s \<in> set rules" using Cons.prems by simp
    then show ?thesis using Cons.IH Cons.prems by simp
  qed
qed

lemma rules_fold_attained:
  "fold (rule_step v r) rules s = s \<or>
   (\<exists>r2s\<in>set rules. weather r2s = weather_description r \<and> check (rain r2s) v
      \<and> fold (rule_step v r) rules s = skill r2s)"
proof (induction rules arbitrary: s)
  case Nil show ?case by simp
next
  case (Cons a rules)
  show ?case
    using Cons.IH [of "rule_step v r a s"] skill_max_cases [of s "skill a"]
    by (auto simp: rule_step_def)
qed

lemma recs_fold_ge:
  "skill_value s \<le> skill_value (fold (\<lambda>r s. fold (rule_step v r) rules s) recs s)"
proof (induction recs arbitrary: s)
  case Nil show ?case by simp
next
  case (Cons a recs)
  have "skill_value s \<le> skill_value (fold (rule_step v a) rules s)"
    by (rule rules_fold_ge)
  also have "\<dots> \<le> skill_value (fold (\<lambda>r s. fold (rule_step v r) rules s) recs (fold (rule_step v a) rules s))"
    by (rule Cons.IH)
  finally show ?case by simp
qed

lemma recs_fold_upper:
  "r \<in> set recs \<Longrightarrow> r2s \<in> set rules \<Longrightarrow> weather r2s = weather_description r \<Longrightarrow>
   check (rain r2s) v \<Longrightarrow>
   skill_value (skill r2s) \<le> skill_value (fold (\<lambda>r s. fold (rule_step v r) rules s) recs s)"
proof (induction recs arbitrary: s)
  case Nil then show ?case by simp
next
  case (Cons a recs)
  show ?case
  proof (cases "r = a")
    case True
    have "skill_value (skill r2s) \<le> skill_value (fold (rule_step v a) rules s)"
      using True Cons.prems rules_fold_upper by simp
    also have "\<dots> \<le> skill_value (fold (\<lambda>r s. fold (rule_step v r) rules s) recs (fold (rule_step v a) rules s))"
      by (rule recs_fold_ge)
    finally show ?thesis by simp
  next
    case False
    then have "r \<in> set recs" using Cons.prems by simp
    then show ?thesis using Cons.IH Cons.prems by simp
  qed
qed

lemma recs_fold_attained:
  "fold (\<lambda>r s. fold (rule_step v r) rules s) recs s = s \<or>
   (\<exists>r\<in>set recs. \<exists>r2s\<in>set rules. weather r2s = weather_description r \<and> check (rain r2s) v
      \<and> fold (\<lambda>r s. fold (rule_step v r) rules s) recs s = skill r2s)"
proof (induction recs arbitrary: s)
  case Nil show ?case by simp
next
  case (Cons a recs)
  show ?case
    using Cons.IH [of "fold (rule_step v a) rules s"] rules_fold_attained [of v a rules s]
    by auto
qed

lemma best_skill_upper:
  "r \<in> set recs \<Longrightarrow> r2s \<in> set rules \<Longrightarrow> weather r2s = weather_description r \<Longrightarrow>
   check (rain r2s) v \<Longrightarrow> skill_value (skill r2s) \<le> skill_value (best_skill rules recs v)"
  by (simp add: best_skill_def recs_fold_upper)

lemma best_skill_attained:
  "best_skill rules recs v = NONE \<or>
   (\<exists>r\<in>set recs. \<exists>r2s\<in>set rules. weather r2s = weather_description r \<and> check (rain r2s) v
      \<and> best_skill rules recs v = skill r2s)"
  unfolding best_skill_def by (rule recs_fold_attained)

lemma skill_value_nonneg: "0 \<le> skill_value s"
  by (cases s) simp_all

lemma best_skill_Max:
  "skill_value (best_skill rules recs v) =
     Max (insert 0 (skill_value ` {skill r2s | r2s r. r \<in> set recs \<and> r2s \<in> set rules
            \<and> weather r2s = weather_description r \<and> check (rain r2s) v}))"
  (is "?m = Max (insert 0 (skill_value ` ?S))")
proof -
  have "?S \<subseteq> skill ` set rules" by auto
  then have fin: "finite ?S" by (rule finite_subset) simp
  have mem: "?m \<in> insert 0 (skill_value ` ?S)"
    using best_skill_attained [of rules recs v] by force
  have ub: "\<And>x. x \<in> insert 0 (skill_value ` ?S) \<Longrightarrow> x \<le> ?m"
    using skill_value_nonneg best_skill_upper by auto
  show ?thesis
    using fin mem ub by (intro Max_eqI [symmetric]) auto
qed

lemma check_finite:
  "check \<lparr>start = Finite a, stop = Finite b, inc = True\<rparr> x = (a \<le> x \<and> x \<le> b)"
  "check \<lparr>start = Finite a, stop = Finite b, inc = False\<rparr> x = (a < x \<and> x < b)"
  "check \<lparr>start = Finite a, stop = PosInf, inc = False\<rparr> x = (a < x)"
  "check \<lparr>start = Finite a, stop = PosInf, inc = True\<rparr> x = (a \<le> x)"
  "check \<lparr>start = NegInf, stop = PosInf, inc = False\<rparr> x = True"
  by (auto simp: check_def flt_def)

section \<open>The example run, evaluated\<close>

lemmas run_defs = step_def init_def open_or_extend_def location_of_def append_rain_def
  rain_or_0_def best_skill_def rule_step_def check_def update_anchors_def update_anchor_def
  RIVER_NAMES_def point_of_def get_inf_def fmin_def flt_def skill_max_def Let_def

lemmas example_defs = example_env_def example_rules_def example_records_def observation_def
  place_def

lemma example_groups:
  "groups example_records =
     [[observation ''A'' 0 1000 0 (Some 60) ''Rain''],
      [observation ''B'' 0 3000 500 (Some 20) ''Clouds''],
      [observation ''C'' 0 500 (-200) (Some 20) ''Clouds''],
      [observation ''D'' 0 4000 1000 None ''Clouds'']]"
  by (simp add: groups_def example_defs sort_keyfn_def group_keyfn_def)

lemma example_pass1: "pass1 example_env example_records = Inr example_state"
  unfolding pass1_def example_groups
  by (simp add: example_defs run_defs example_state_def)

lemma example_pass2: "pass2 example_env example_state = [(place ''B'' 3000 500, ''Saar'')]"
  by (simp add: example_defs run_defs example_state_def pass2_def near_rivers_def)

lemma step_data_at:
  assumes "step env st (r # rest) = Inr st'"
  obtains d0 where "open_or_extend (data st) r = Inr d0"
    and "map_of (data st') (location_of r) = Some (append_rain d0 r)"
    and "rain_flood st' =
           (if sum_list (rain_24h (append_rain d0 r)) \<ge> rain_threshold env
            then insert (location_of r) (rain_flood st) else rain_flood st)"
    and "river_flood st' =
           (if sum_list (rain_24h (append_rain d0 r)) \<ge> rain_threshold env
            then update_anchors env (point_of env (location_of r)) (river_flood st)
            else river_flood st)"
proof -
  from assms obtain d0 where 1: "open_or_extend (data st) r = Inr d0"
    and 2: "data st' = AList.update (location_of r) (append_rain d0 r) (data st)"
    and 3: "rain_flood st' =
           (if sum_list (rain_24h (append_rain d0 r)) \<ge> rain_threshold env
            then insert (location_of r) (rain_flood st) else rain_flood st)"
    and 4: "river_flood st' =
           (if sum_list (rain_24h (append_rain d0 r)) \<ge> rain_threshold env
            then update_anchors env (point_of env (location_of r)) (river_flood st)
            else river_flood st)"
    by (elim step_Inr) simp
  from 2 have m: "map_of (data st') (location_of r) = Some (append_rain d0 r)"
    by (simp add: update_conv)
  show ?thesis by (rule that [OF 1 m 3 4])
qed

lemma get_inf_update_anchors:
  "get_inf (update_anchors env p rf) river =
     (if river \<in> set RIVER_NAMES \<and> distance (RIVERS env river) p < river_margin env
      then fmin (get_inf rf river) (Finite (project (RIVERS env river) p))
      else get_inf rf river)"
  by (simp add: update_anchors_at get_inf_def)

section \<open>Windows follow the groups of their location\<close>

lemma drop_snoc_24:
  assumes "n = length xs"
  shows "drop (Suc n - 24) (xs @ [x]) =
           (if length (drop (n - 24) xs @ [x]) > 24 then tl (drop (n - 24) xs @ [x])
            else drop (n - 24) xs @ [x])"
proof (cases "n < 24")
  case True
  with assms show ?thesis by simp
next
  case False
  then have k: "Suc n - 24 = Suc (n - 24)" and le: "n - 24 < length xs"
    using assms by simp_all
  from le have ne: "drop (n - 24) xs \<noteq> []" by simp
  have "drop (Suc (n - 24)) (xs @ [x]) = drop (Suc (n - 24)) xs @ [x]"
    using le by simp
  also have "drop (Suc (n - 24)) xs = tl (drop (n - 24) xs)"
    by (simp add: drop_Suc drop_tl)
  also have "tl (drop (n - 24) xs) @ [x] = tl (drop (n - 24) xs @ [x])"
    using ne by simp
  finally show ?thesis using False assms k by simp
qed

lemma append_rain_window:
  assumes "rain_24h d = map (rain_or_0 \<circ> hd) (drop (length obs - 24) obs)" and "hd g = r"
  shows "rain_24h (append_rain d r) =
           map (rain_or_0 \<circ> hd) (drop (length (obs @ [g]) - 24) (obs @ [g]))"
proof -
  let ?f = "rain_or_0 \<circ> hd"
  have "map ?f (drop (Suc (length obs) - 24) (obs @ [g]))
        = drop (Suc (length (map ?f obs)) - 24) (map ?f obs @ [?f g])"
    by (simp add: drop_map)
  also have "\<dots> = (if length (drop (length (map ?f obs) - 24) (map ?f obs) @ [?f g]) > 24
                   then tl (drop (length (map ?f obs) - 24) (map ?f obs) @ [?f g])
                   else drop (length (map ?f obs) - 24) (map ?f obs) @ [?f g])"
    by (rule drop_snoc_24) simp
  also have "\<dots> = rain_24h (append_rain d r)"
    using assms by (simp add: append_rain_def Let_def drop_map)
  finally show ?thesis by simp
qed

lemma filter_is_drop:
  "(\<forall>i<length xs. P (xs ! i) \<longleftrightarrow> k \<le> i) \<Longrightarrow> filter P xs = drop k xs"
proof (induction xs arbitrary: k)
  case Nil
  show ?case by simp
next
  case (Cons x xs)
  from Cons.prems have px: "P x \<longleftrightarrow> k = 0" by force
  have rest: "\<forall>i<length xs. P (xs ! i) \<longleftrightarrow> k - 1 \<le> i"
  proof (intro allI impI)
    fix i assume "i < length xs"
    with Cons.prems have "P ((x # xs) ! Suc i) \<longleftrightarrow> k \<le> Suc i" by (metis length_Cons Suc_less_eq)
    then show "P (xs ! i) \<longleftrightarrow> k - 1 \<le> i" by auto
  qed
  from Cons.IH [OF rest] have ih: "filter P xs = drop (k - 1) xs" .
  show ?case
  proof (cases k)
    case 0
    with px ih show ?thesis by simp
  next
    case (Suc j)
    with px ih show ?thesis by simp
  qed
qed


lemma append_rain_fields:
  "loc (append_rain d r) = loc d" "dt_from (append_rain d r) = dt_from d"
  "dt_to (append_rain d r) = dt_to d"
  by (simp_all add: append_rain_def Let_def)

lemma groups_at_snoc:
  "groups_at l (gs @ [r # rest]) =
     (if location_of r = l then groups_at l gs @ [r # rest] else groups_at l gs)"
  by (simp add: groups_at_def)

lemma windows_ok_init: "windows_ok [] init"
  by (simp add: windows_ok_def init_def groups_at_def)

lemma windows_okD_None:
  "windows_ok gs st \<Longrightarrow> map_of (data st) l = None \<Longrightarrow> groups_at l gs = []"
  unfolding windows_ok_def by (drule spec [of _ l]) simp

lemma windows_okD_Some:
  "windows_ok gs st \<Longrightarrow> map_of (data st) l = Some d \<Longrightarrow> window_ok l (groups_at l gs) d"
  unfolding windows_ok_def by (drule spec [of _ l]) simp

lemma open_or_extend_fresh:
  "map_of dat (location_of r) = None \<Longrightarrow>
   open_or_extend dat r =
     Inr \<lparr>loc = location_of r, dt_from = dt r - 3600, dt_to = dt r, rain_24h = []\<rparr>"
  by (simp add: open_or_extend_def)

lemma open_or_extend_known:
  "map_of dat (location_of r) = Some d \<Longrightarrow> loc d = location_of r \<Longrightarrow>
   open_or_extend dat r =
     (if dt r = dt_to d + 3600 then Inr (d\<lparr>dt_to := dt r\<rparr>)
      else Inl (ContinuityError (location_of r) (dt_to d + 3600) r))"
  by (simp add: open_or_extend_def)

lemma window_ok_first:
  "window_ok (location_of r) [r # rest]
     (append_rain \<lparr>loc = location_of r, dt_from = dt r - 3600, dt_to = dt r, rain_24h = []\<rparr> r)"
  by (simp add: window_ok_def append_rain_def)

lemma window_ok_next:
  assumes w: "window_ok l obs d" and t: "dt r = dt_to d + 3600"
  shows "window_ok l (obs @ [r # rest]) (append_rain (d\<lparr>dt_to := dt r\<rparr>) r)"
proof -
  let ?d = "append_rain (d\<lparr>dt_to := dt r\<rparr>) r"
  from w have l: "loc d = l" and n: "dt_to d = dt_from d + 3600 * int (length obs)"
    and ts: "\<forall>i<length obs. dt (hd (obs ! i)) = dt_from d + 3600 * (int i + 1)"
    and rs: "rain_24h d = map (rain_or_0 \<circ> hd) (drop (length obs - 24) obs)"
    by (simp_all add: window_ok_def)
  have 1: "loc ?d = l" using l by (simp add: append_rain_fields)
  have 2: "dt_to ?d = dt_from ?d + 3600 * int (length (obs @ [r # rest]))"
    using n t by (simp add: append_rain_fields)
  have 3: "dt (hd ((obs @ [r # rest]) ! i)) = dt_from ?d + 3600 * (int i + 1)"
    if "i < length (obs @ [r # rest])" for i
  proof (cases "i < length obs")
    case True
    with ts show ?thesis by (simp add: nth_append append_rain_fields)
  next
    case False
    with that have "i = length obs" by simp
    with n t show ?thesis by (simp add: nth_append append_rain_fields)
  qed
  have "rain_24h (d\<lparr>dt_to := dt r\<rparr>) = map (rain_or_0 \<circ> hd) (drop (length obs - 24) obs)"
    using rs by simp
  then have 4: "rain_24h ?d =
      map (rain_or_0 \<circ> hd) (drop (length (obs @ [r # rest]) - 24) (obs @ [r # rest]))"
    by (rule append_rain_window) simp
  from 1 2 3 4 show ?thesis unfolding window_ok_def by blast
qed

lemma step_windows_ok:
  assumes inv: "windows_ok gs st" and s: "step env st g = Inr st'"
  shows "windows_ok (gs @ [g]) st'"
proof -
  from s obtain r rest d0 where g: "g = r # rest"
    and oe: "open_or_extend (data st) r = Inr d0"
    and dat: "data st' = AList.update (location_of r) (append_rain d0 r) (data st)"
    by (elim step_Inr)
  let ?l = "location_of r"
  have new: "window_ok ?l (groups_at ?l gs @ [g]) (append_rain d0 r)"
  proof (cases "map_of (data st) ?l")
    case None
    from windows_okD_None [OF inv None] have "groups_at ?l gs = []" .
    moreover from oe open_or_extend_fresh [OF None]
    have "d0 = \<lparr>loc = ?l, dt_from = dt r - 3600, dt_to = dt r, rain_24h = []\<rparr>" by simp
    ultimately show ?thesis using window_ok_first [of r rest] g by simp
  next
    case (Some d)
    from windows_okD_Some [OF inv Some] have w: "window_ok ?l (groups_at ?l gs) d" .
    then have "loc d = ?l" by (simp add: window_ok_def)
    from oe open_or_extend_known [OF Some this]
    have t: "dt r = dt_to d + 3600" and d0: "d0 = d\<lparr>dt_to := dt r\<rparr>"
      by (simp_all split: if_splits)
    from window_ok_next [OF w t, of rest] d0 g show ?thesis by simp
  qed
  show ?thesis
    unfolding windows_ok_def
  proof
    fix l
    show "case map_of (data st') l of None \<Rightarrow> groups_at l (gs @ [g]) = []
          | Some d \<Rightarrow> window_ok l (groups_at l (gs @ [g])) d"
    proof (cases "l = ?l")
      case True
      with new dat g show ?thesis by (simp add: update_conv groups_at_snoc)
    next
      case False
      then have "map_of (data st') l = map_of (data st) l"
        using dat by (simp add: update_conv)
      moreover from False have "groups_at l (gs @ [g]) = groups_at l gs"
        using g by (auto simp: groups_at_snoc)
      moreover have "case map_of (data st) l of None \<Rightarrow> groups_at l gs = []
          | Some d \<Rightarrow> window_ok l (groups_at l gs) d"
        using inv unfolding windows_ok_def by (rule spec)
      ultimately show ?thesis by (simp split: option.splits)
    qed
  qed
qed

lemma process_windows_ok: "process env init gs = Inr st \<Longrightarrow> windows_ok gs st"
proof (induction gs arbitrary: st rule: rev_induct)
  case Nil
  then show ?case using windows_ok_init by simp
next
  case (snoc g gs)
  from snoc.prems obtain st0 where p: "process env init gs = Inr st0"
    and s: "step env st0 g = Inr st"
    by (auto simp: process_snoc split: sum.splits)
  from step_windows_ok [OF snoc.IH [OF p] s] show ?case .
qed

lemma process_snoc_Inr:
  "process env st (gs @ [g]) = Inr st' \<Longrightarrow>
   \<exists>st0. process env st gs = Inr st0 \<and> step env st0 g = Inr st'"
  by (auto simp: process_snoc split: sum.splits)

lemma window_sum:
  assumes w: "window_ok l obs d"
  shows "sum_list (rain_24h d) =
           sum_list (map (rain_or_0 \<circ> hd)
             (filter (\<lambda>g. dt_to d - 23 * 3600 \<le> dt (hd g) \<and> dt (hd g) \<le> dt_to d) obs))"
proof -
  let ?P = "\<lambda>g. dt_to d - 23 * 3600 \<le> dt (hd g) \<and> dt (hd g) \<le> dt_to d"
  from w have n: "dt_to d = dt_from d + 3600 * int (length obs)"
    and ts: "\<forall>i<length obs. dt (hd (obs ! i)) = dt_from d + 3600 * (int i + 1)"
    and rs: "rain_24h d = map (rain_or_0 \<circ> hd) (drop (length obs - 24) obs)"
    by (simp_all add: window_ok_def)
  have "?P (obs ! i) \<longleftrightarrow> length obs - 24 \<le> i" if "i < length obs" for i
  proof -
    from ts that have "dt (hd (obs ! i)) = dt_from d + 3600 * (int i + 1)" by blast
    with n that show ?thesis by auto
  qed
  then have "filter ?P obs = drop (length obs - 24) obs"
    by (intro filter_is_drop) blast
  with rs show ?thesis by simp
qed

lemma filter_groups_at:
  "filter (\<lambda>g. location_of (hd g) = l \<and> Q g) gs = filter Q (groups_at l gs)"
  by (simp add: groups_at_def conj_commute)

section \<open>The set of places flooded by rain, and the gaps\<close>

lemma step_rain_flood:
  assumes "step env st (r # rest) = Inr st'"
  obtains d where "map_of (data st') (location_of r) = Some d"
    and "rain_flood st' =
           (if rain_threshold env \<le> sum_list (rain_24h d)
            then insert (location_of r) (rain_flood st) else rain_flood st)"
  using assms by (elim step_data_at) blast

lemma ex_less_Suc: "(\<exists>k<Suc n. P k) \<longleftrightarrow> (\<exists>k<n. P k) \<or> P n"
  by (auto simp: less_Suc_eq)

lemma process_rain_flood:
  "process env init gs = Inr st \<Longrightarrow>
   l \<in> rain_flood st \<longleftrightarrow>
     (\<exists>k<length gs. \<exists>stk d. process env init (take (Suc k) gs) = Inr stk
        \<and> location_of (hd (gs ! k)) = l \<and> map_of (data stk) l = Some d
        \<and> rain_threshold env \<le> sum_list (rain_24h d))"
proof (induction gs arbitrary: st rule: rev_induct)
  case Nil
  then have "st = init" by simp
  then show ?case by (simp add: init_def)
next
  case (snoc g gs)
  define Q where "Q hs k \<longleftrightarrow> (\<exists>stk d. process env init (take (Suc k) hs) = Inr stk
        \<and> location_of (hd (hs ! k)) = l \<and> map_of (data stk) l = Some d
        \<and> rain_threshold env \<le> sum_list (rain_24h d))" for hs k
  from process_snoc_Inr [OF snoc.prems] obtain st0
    where p: "process env init gs = Inr st0" and s: "step env st0 g = Inr st" by blast
  from s obtain r rest where g: "g = r # rest" by (elim step_Inr)
  from s [unfolded g] obtain d where m: "map_of (data st) (location_of r) = Some d"
    and rf: "rain_flood st =
           (if rain_threshold env \<le> sum_list (rain_24h d)
            then insert (location_of r) (rain_flood st0) else rain_flood st0)"
    by (elim step_rain_flood)
  have old: "Q (gs @ [g]) k \<longleftrightarrow> Q gs k" if "k < length gs" for k
    using that by (simp add: Q_def nth_append)
  have last: "Q (gs @ [g]) (length gs) \<longleftrightarrow>
                location_of r = l \<and> rain_threshold env \<le> sum_list (rain_24h d)"
    using snoc.prems m g by (auto simp: Q_def)
  have ih: "l \<in> rain_flood st0 \<longleftrightarrow> (\<exists>k<length gs. Q gs k)"
    using snoc.IH [OF p] by (simp add: Q_def)
  have "(\<exists>k<length (gs @ [g]). Q (gs @ [g]) k)
          \<longleftrightarrow> (\<exists>k<length gs. Q (gs @ [g]) k) \<or> Q (gs @ [g]) (length gs)"
    using ex_less_Suc [of "length gs" "Q (gs @ [g])"] by simp
  also have "(\<exists>k<length gs. Q (gs @ [g]) k) \<longleftrightarrow> (\<exists>k<length gs. Q gs k)"
    using old by blast
  finally have "(\<exists>k<length (gs @ [g]). Q (gs @ [g]) k)
          \<longleftrightarrow> l \<in> rain_flood st0
              \<or> (location_of r = l \<and> rain_threshold env \<le> sum_list (rain_24h d))"
    using last ih by simp
  also have "\<dots> \<longleftrightarrow> l \<in> rain_flood st"
    unfolding rf by auto
  finally show ?case by (simp add: Q_def)
qed

lemma window_loc:
  "process env init gs = Inr st \<Longrightarrow> map_of (data st) l = Some d \<Longrightarrow> loc d = l"
  using windows_okD_Some [OF process_windows_ok] by (simp add: window_ok_def)

lemma step_gap:
  assumes "map_of (data st) (location_of r) = Some d" and "loc d = location_of r"
    and "dt r \<noteq> dt_to d + 3600"
  shows "step env st (r # rest) = Inl (ContinuityError (location_of r) (dt_to d + 3600) r)"
  using assms by (simp add: step_def open_or_extend_known)

section \<open>The groups of main\<close>

lemma groupby_key_hd:
  assumes "(k, g) \<in> set (groupby f xs)" shows "f (hd g) = k"
proof -
  from groupby_group [OF assms] have "g \<noteq> []" and a: "\<forall>x\<in>set g. f x = k" by blast+
  then have "hd g \<in> set g" by simp
  with a show ?thesis by blast
qed

lemma groupby_nth_key:
  assumes "i < length (groupby f xs)"
  shows "fst (groupby f xs ! i) = f (hd (snd (groupby f xs ! i)))"
proof -
  from assms have "(fst (groupby f xs ! i), snd (groupby f xs ! i)) \<in> set (groupby f xs)"
    by simp
  from groupby_key_hd [OF this] show ?thesis by simp
qed

lemma groups_concat: "concat (groups records) = sort_key sort_keyfn records"
  unfolding groups_def by (rule groupby_concat)

lemma groups_same_key:
  assumes "g \<in> set (groups records)" and "x \<in> set g"
  shows "group_keyfn x = group_keyfn (hd g)"
proof -
  from assms(1) have "g \<in> snd ` set (groupby group_keyfn (sort_key sort_keyfn records))"
    unfolding groups_def by (simp only: set_map)
  then obtain kg where kg: "kg \<in> set (groupby group_keyfn (sort_key sort_keyfn records))"
      and "g = snd kg"
    by (rule imageE)
  then have m: "(fst kg, g) \<in> set (groupby group_keyfn (sort_key sort_keyfn records))"
    by (simp only: prod.collapse)
  from groupby_group [OF m] assms(2) have "group_keyfn x = fst kg" by blast
  with groupby_key_hd [OF m] show ?thesis by simp
qed

lemma groups_adjacent:
  assumes "Suc i < length (groups records)"
  shows "group_keyfn (hd (groups records ! i)) \<noteq> group_keyfn (hd (groups records ! Suc i))"
proof -
  let ?G = "groupby group_keyfn (sort_key sort_keyfn records)"
  from assms have l: "Suc i < length ?G" by (simp add: groups_def)
  then have l0: "i < length ?G" by simp
  from groupby_adjacent [OF l] groupby_nth_key [OF l] groupby_nth_key [OF l0]
  have "group_keyfn (hd (snd (?G ! i))) \<noteq> group_keyfn (hd (snd (?G ! Suc i)))"
    by simp
  with l l0 show ?thesis by (simp add: groups_def)
qed

section \<open>Records that share a key and nothing between them\<close>

lemma While_append_stop:
  assumes "ys \<noteq> []" and "\<not> P (hd ys)"
  shows "takeWhile P (xs @ ys) = takeWhile P xs" and "dropWhile P (xs @ ys) = dropWhile P xs @ ys"
proof -
  from assms obtain y ys' where ys: "ys = y # ys'" and y: "\<not> P y" by (cases ys) auto
  show "takeWhile P (xs @ ys) = takeWhile P xs"
    by (induction xs) (simp_all add: ys y)
  show "dropWhile P (xs @ ys) = dropWhile P xs @ ys"
    by (induction xs) (simp_all add: ys y)
qed

lemma While_all:
  assumes "\<forall>b\<in>set bs. P b" and "\<forall>c\<in>set cs. \<not> P c"
  shows "takeWhile P (bs @ cs) = bs" and "dropWhile P (bs @ cs) = cs"
proof -
  have t: "takeWhile P cs = []" using assms(2) by (cases cs) simp_all
  have d: "dropWhile P cs = cs" using assms(2) by (cases cs) simp_all
  show "takeWhile P (bs @ cs) = bs" using assms(1) t by (induction bs) simp_all
  show "dropWhile P (bs @ cs) = cs" using assms(1) d by (induction bs) simp_all
qed

lemma groupby_run:
  assumes "bs \<noteq> []" and "\<forall>b\<in>set bs. f b = k" and "\<forall>c\<in>set cs. f c \<noteq> k"
  shows "groupby f (bs @ cs) = (k, bs) # groupby f cs"
proof -
  from assms(1) obtain b bs' where bs: "bs = b # bs'" by (cases bs) auto
  with assms(2) have fb: "f b = k" and all: "\<forall>x\<in>set bs'. f x = f b" by simp_all
  from assms(3) fb have none: "\<forall>c\<in>set cs. \<not> f c = f b" by simp
  from While_all [of bs' "\<lambda>y. f y = f b" cs, OF all none]
  show ?thesis by (simp add: bs fb)
qed

lemma groupby_isolated:
  assumes "\<forall>a\<in>set as. f a \<noteq> k" and "bs \<noteq> []" and "\<forall>b\<in>set bs. f b = k"
    and "\<forall>c\<in>set cs. f c \<noteq> k"
  shows "groupby f (as @ bs @ cs) = groupby f as @ (k, bs) # groupby f cs"
  using assms(1)
proof (induction "length as" arbitrary: as rule: less_induct)
  case less
  show ?case
  proof (cases as)
    case Nil
    with groupby_run [OF assms(2) assms(3) assms(4)] show ?thesis by simp
  next
    case (Cons a as')
    let ?P = "\<lambda>y. f y = f a"
    from assms(2) have ne: "bs @ cs \<noteq> []" by simp
    from assms(2,3) have "f (hd bs) = k" by simp
    moreover from less.prems Cons have "f a \<noteq> k" by simp
    ultimately have stop: "\<not> ?P (hd (bs @ cs))" using assms(2) by simp
    note w = While_append_stop [of "bs @ cs" ?P as', OF ne stop]
    have sub: "set (dropWhile ?P as') \<subseteq> set as"
      using set_dropWhileD [of _ ?P as'] Cons by auto
    with less.prems have keys: "\<forall>x\<in>set (dropWhile ?P as'). f x \<noteq> k" by blast
    have "length (dropWhile ?P as') < length as"
      using length_dropWhile_le [of ?P as'] Cons by simp
    from less.hyps [OF this keys]
    have ih: "groupby f (dropWhile ?P as' @ bs @ cs) =
                groupby f (dropWhile ?P as') @ (k, bs) # groupby f cs" .
    show ?thesis using w ih by (simp add: Cons)
  qed
qed


lemma sorted_split:
  fixes g :: "'a \<Rightarrow> 'b::linorder"
  assumes "sorted (map g xs)"
  shows "xs = filter (\<lambda>x. g x < v) xs @ filter (\<lambda>x. g x = v) xs @ filter (\<lambda>x. v < g x) xs"
  using assms
proof (induction xs)
  case Nil
  show ?case by simp
next
  case (Cons x xs)
  from Cons.prems have s: "sorted (map g xs)" and le: "\<forall>y\<in>set xs. g x \<le> g y"
    by simp_all
  note ih = Cons.IH [OF s]
  consider (lt) "g x < v" | (eq) "g x = v" | (gt) "v < g x"
    by (rule linorder_cases)
  then show ?case
  proof cases
    case lt
    then have "\<not> g x = v" "\<not> v < g x" by (metis less_irrefl, metis less_asym)
    with lt ih show ?thesis by simp
  next
    case eq
    have "\<not> g y < v" if "y \<in> set xs" for y
      using le that eq by (metis leD)
    then have "filter (\<lambda>x. g x < v) xs = []" by (simp add: filter_empty_conv)
    with eq ih show ?thesis by simp
  next
    case gt
    have n: "\<not> g y < v \<and> \<not> g y = v" if "y \<in> set xs" for y
    proof -
      from le that have "g x \<le> g y" by blast
      with gt have "v < g y" by (rule less_le_trans)
      then show ?thesis by (metis less_asym less_irrefl)
    qed
    then have "filter (\<lambda>x. g x < v) xs = []" "filter (\<lambda>x. g x = v) xs = []"
      by (simp_all add: filter_empty_conv)
    moreover from gt have "\<not> g x < v" "\<not> g x = v" by (metis less_asym, metis less_irrefl)
    ultimately show ?thesis using gt ih by simp
  qed
qed

lemma groupby_keys:
  assumes "(k, g) \<in> set (groupby f xs)" shows "\<exists>x\<in>set xs. f x = k"
proof -
  from groupby_group [OF assms] have ne: "g \<noteq> []" by (rule conjunct1)
  then have "hd g \<in> set g" by simp
  moreover from assms have "set g \<subseteq> set (concat (map snd (groupby f xs)))" by force
  ultimately have "hd g \<in> set xs" by (simp only: groupby_concat) blast
  with groupby_key_hd [OF assms] show ?thesis by blast
qed

lemma groupby_no_key:
  assumes "\<forall>x\<in>set xs. f x \<noteq> k"
  shows "filter (\<lambda>kg. fst kg = k) (groupby f xs) = []"
proof -
  have "fst kg \<noteq> k" if "kg \<in> set (groupby f xs)" for kg
  proof -
    from that have "(fst kg, snd kg) \<in> set (groupby f xs)" by simp
    from groupby_keys [OF this] assms show ?thesis by blast
  qed
  then show ?thesis by (simp add: filter_empty_conv)
qed

lemma groupby_one_run:
  fixes g :: "'a \<Rightarrow> 'b::linorder"
  assumes srt: "sorted (map g xs)" and r: "r \<in> set xs"
    and fg: "\<forall>x\<in>set xs. (f x = f r) = (g x = g r)"
  shows "filter (\<lambda>kg. fst kg = f r) (groupby f xs) = [(f r, filter (\<lambda>x. f x = f r) xs)]"
proof -
  let ?A = "filter (\<lambda>x. g x < g r) xs" and ?B = "filter (\<lambda>x. g x = g r) xs"
    and ?C = "filter (\<lambda>x. g r < g x) xs"
  from sorted_split [OF srt, of "g r"] have xs: "xs = ?A @ ?B @ ?C" .
  from r have ne: "?B \<noteq> []" by (simp add: filter_empty_conv) blast
  have b: "\<forall>b\<in>set ?B. f b = f r" using fg by simp
  have a: "\<forall>a\<in>set ?A. f a \<noteq> f r" using fg by auto
  have c: "\<forall>c\<in>set ?C. f c \<noteq> f r" using fg by auto
  from groupby_isolated [OF a ne b c]
  have "groupby f (?A @ ?B @ ?C) = groupby f ?A @ (f r, ?B) # groupby f ?C" .
  then have "filter (\<lambda>kg. fst kg = f r) (groupby f (?A @ ?B @ ?C)) = [(f r, ?B)]"
    using groupby_no_key [OF a] groupby_no_key [OF c] by simp
  moreover have "?B = filter (\<lambda>x. f x = f r) xs"
    using fg by (intro filter_cong) simp_all
  ultimately show ?thesis using xs by simp
qed


lemma sort_keyfn_mono:
  assumes "sort_keyfn x \<le> sort_keyfn y"
  shows "(Record.city_name x, dt x, Record.lat x, Record.lon x)
           \<le> (Record.city_name y, dt y, Record.lat y, Record.lon y)"
  using assms unfolding sort_keyfn_def less_eq_prod_def less_prod_def
  by (auto split: if_splits)

lemma sorted_place_time:
  "sorted (map (\<lambda>x. (Record.city_name x, dt x, Record.lat x, Record.lon x))
             (sort_key sort_keyfn records))"
proof -
  have "sorted (map sort_keyfn (sort_key sort_keyfn records))" by simp
  then have "sorted_wrt (\<lambda>x y. sort_keyfn x \<le> sort_keyfn y) (sort_key sort_keyfn records)"
    by (simp only: sorted_map)
  then have "sorted_wrt (\<lambda>x y. (Record.city_name x, dt x, Record.lat x, Record.lon x)
           \<le> (Record.city_name y, dt y, Record.lat y, Record.lon y)) (sort_key sort_keyfn records)"
    by (rule sorted_wrt_mono_rel [rotated]) (rule sort_keyfn_mono)
  then show ?thesis by (simp only: sorted_map)
qed

lemma groups_one_run:
  assumes r: "r \<in> set records"
    and same: "\<forall>x\<in>set records. location_of x = location_of r \<and> dt x = dt r
                 \<longrightarrow> rain_1h x = rain_1h r"
  shows "filter (\<lambda>g. group_keyfn (hd g) = group_keyfn r) (groups records)
           = [sort_key sort_keyfn (filter (\<lambda>x. group_keyfn x = group_keyfn r) records)]"
proof -
  let ?S = "sort_key sort_keyfn records"
  let ?G = "groupby group_keyfn ?S"
  let ?g = "\<lambda>x. (Record.city_name x, dt x, Record.lat x, Record.lon x)"
  have fg: "\<forall>x\<in>set ?S. (group_keyfn x = group_keyfn r) = (?g x = ?g r)"
  proof
    fix x assume "x \<in> set ?S"
    then have "x \<in> set records" by simp
    with same have "location_of x = location_of r \<and> dt x = dt r \<longrightarrow> rain_1h x = rain_1h r"
      by blast
    then show "(group_keyfn x = group_keyfn r) = (?g x = ?g r)"
      by (auto simp: group_keyfn_def location_of_def)
  qed
  from r have r': "r \<in> set ?S" by simp
  from groupby_one_run [of ?g ?S r group_keyfn, OF sorted_place_time r' fg]
  have one: "filter (\<lambda>kg. fst kg = group_keyfn r) ?G
               = [(group_keyfn r, filter (\<lambda>x. group_keyfn x = group_keyfn r) ?S)]" .
  have "filter (\<lambda>g. group_keyfn (hd g) = group_keyfn r) (groups records)
          = map snd (filter (\<lambda>kg. group_keyfn (hd (snd kg)) = group_keyfn r) ?G)"
    by (simp add: groups_def filter_map comp_def)
  also have "filter (\<lambda>kg. group_keyfn (hd (snd kg)) = group_keyfn r) ?G
               = filter (\<lambda>kg. fst kg = group_keyfn r) ?G"
  proof (rule filter_cong [OF refl])
    fix kg assume "kg \<in> set ?G"
    then have "(fst kg, snd kg) \<in> set ?G" by simp
    from groupby_key_hd [OF this]
    show "(group_keyfn (hd (snd kg)) = group_keyfn r) = (fst kg = group_keyfn r)" by simp
  qed
  finally have "filter (\<lambda>g. group_keyfn (hd g) = group_keyfn r) (groups records)
          = [filter (\<lambda>x. group_keyfn x = group_keyfn r) ?S]"
    by (simp only: one list.map snd_conv)
  then show ?thesis by (simp only: filter_sort)
qed

lemma step_ContinuityError:
  "step env st (x # rest) = Inl (ContinuityError l t y)
     \<longleftrightarrow> open_or_extend (data st) x = Inl (ContinuityError l t y)"
  by (auto simp: step_def Let_def split: sum.splits option.splits)

lemma step_printed:
  assumes "step env st (x # rest) = Inr st'"
  obtains d0 where "open_or_extend (data st) x = Inr d0"
    and "best_skill (RAIN_TO_SKILLS env) (x # rest) (sum_list (rain_24h (append_rain d0 x))) = NONE
           \<and> printed st' = printed st
         \<or> (\<exists>date. utcfromtimestamp env (dt (last (x # rest))) = Some date
              \<and> printed st' = printed st @
                  [(location_of x,
                    best_skill (RAIN_TO_SKILLS env) (x # rest) (sum_list (rain_24h (append_rain d0 x))),
                    date)])"
  using assms
  by (auto simp: step_def Let_def split: sum.splits option.splits if_splits)

section \<open>Properties of the specification\<close>

text \<open>
  C1. When the first pass has gone through, the second pass prints the pair of a place
  and a river exactly when the place is one of the input, is not flooded by rain, lies
  closer to the river than the margin, and the river has an anchor that is at most the
  place's position along it. So a river without an anchor floods no place, and a place
  flooded by rain is printed with no river.
\<close>

theorem river_flood_iff:
  assumes "pass1 env records = Inr st"
  shows "((l, river) \<in> set (pass2 env st) \<longleftrightarrow>
           l \<in> location_of ` set records \<and> l \<notin> rain_flood st \<and> river \<in> set RIVER_NAMES
           \<and> distance (RIVERS env river) (point_of env l) < river_margin env
           \<and> (\<exists>a. river_flood st river = Some (Finite a)
                  \<and> a \<le> project (RIVERS env river) (point_of env l)))
       \<and> (river_flood st river = None \<longrightarrow> (l, river) \<notin> set (pass2 env st))
       \<and> (l \<in> rain_flood st \<longrightarrow> (l, river') \<notin> set (pass2 env st))"
proof -
  have 1: "(l, river) \<in> set (pass2 env st) \<longleftrightarrow>
           l \<in> location_of ` set records \<and> l \<notin> rain_flood st \<and> river \<in> set RIVER_NAMES
           \<and> distance (RIVERS env river) (point_of env l) < river_margin env
           \<and> (\<exists>a. river_flood st river = Some (Finite a)
                  \<and> a \<le> project (RIVERS env river) (point_of env l))"
    unfolding pass2_iff pass1_dom [OF assms] fle_get_inf [OF pass1_finite_anchors [OF assms]] ..
  from 1 have 2: "river_flood st river = None \<longrightarrow> (l, river) \<notin> set (pass2 env st)"
    by simp
  have 3: "l \<in> rain_flood st \<longrightarrow> (l, river') \<notin> set (pass2 env st)"
    unfolding pass2_iff by simp
  from 1 2 3 show ?thesis by (intro conjI)
qed

theorem river_flood_iff_witness:
  "pass1 example_env example_records = Inr example_state
   \<and> (place ''B'' 3000 500, ''Saar'') \<in> set (pass2 example_env example_state)
   \<and> (place ''C'' 500 (-200), ''Saar'') \<notin> set (pass2 example_env example_state)
   \<and> (place ''B'' 3000 500, ''Blies'') \<notin> set (pass2 example_env example_state)
   \<and> (place ''A'' 1000 0, ''Saar'') \<notin> set (pass2 example_env example_state)"
proof -
  have rf: "river_flood example_state ''Saar'' = Some (Finite 1000)"
    "river_flood example_state ''Blies'' = None"
    "rain_flood example_state = {place ''A'' 1000 0}"
    by (simp_all add: example_state_def)
  have b: "(place ''B'' 3000 500, ''Saar'') \<in> set (pass2 example_env example_state)"
    using river_flood_iff [OF example_pass1, where l = "place ''B'' 3000 500" and river = "''Saar''"] rf
    by (simp add: example_defs location_of_def RIVER_NAMES_def point_of_def)
  have c: "(place ''C'' 500 (-200), ''Saar'') \<notin> set (pass2 example_env example_state)"
    using river_flood_iff [OF example_pass1, where l = "place ''C'' 500 (-200)" and river = "''Saar''"] rf
    by (simp add: example_defs location_of_def RIVER_NAMES_def point_of_def)
  have d: "(place ''B'' 3000 500, ''Blies'') \<notin> set (pass2 example_env example_state)"
    using river_flood_iff [OF example_pass1, where l = "place ''B'' 3000 500" and river = "''Blies''"] rf
    by blast
  have a: "(place ''A'' 1000 0, ''Saar'') \<notin> set (pass2 example_env example_state)"
    using river_flood_iff [OF example_pass1, where l = "place ''A'' 1000 0" and river' = "''Saar''"] rf
    by blast
  from example_pass1 b c d a show ?thesis by (intro conjI)
qed

text \<open>
  C5. The skill of a group is the greatest level among the rules that match one of the
  group's weather descriptions and whose range accepts the rain sum, and NONE when no
  rule matches. A closed range accepts its bounds, an open one does not. With the two
  rules 0-10 and 10-inf for Rain, a group of Rain records at 15 mm gets the advanced
  level.
\<close>

theorem best_skill_is_max:
  "skill_value (best_skill rules recs v) =
     Max (insert 0 (skill_value ` {skill r2s | r2s r. r \<in> set recs \<and> r2s \<in> set rules
            \<and> weather r2s = weather_description r \<and> check (rain r2s) v}))
   \<and> ((\<forall>r\<in>set recs. \<forall>r2s\<in>set rules.
          \<not> (weather r2s = weather_description r \<and> check (rain r2s) v))
        \<longrightarrow> best_skill rules recs v = NONE)
   \<and> check \<lparr>start = Finite a, stop = Finite b, inc = True\<rparr> x = (a \<le> x \<and> x \<le> b)
   \<and> check \<lparr>start = Finite a, stop = Finite b, inc = False\<rparr> x = (a < x \<and> x < b)
   \<and> check \<lparr>start = Finite a, stop = PosInf, inc = True\<rparr> x = (a \<le> x)
   \<and> check \<lparr>start = Finite a, stop = PosInf, inc = False\<rparr> x = (a < x)
   \<and> check \<lparr>start = NegInf, stop = PosInf, inc = False\<rparr> x
   \<and> (recs \<noteq> [] \<and> (\<forall>r\<in>set recs. weather_description r = ''Rain'')
        \<longrightarrow> best_skill example_rules recs 15 = ADVANCED_SKILLS)"
proof -
  have none: "best_skill rules recs v = NONE"
    if "\<forall>r\<in>set recs. \<forall>r2s\<in>set rules.
          \<not> (weather r2s = weather_description r \<and> check (rain r2s) v)"
    using best_skill_attained [of rules recs v] that by blast
  have adv: "best_skill example_rules recs 15 = ADVANCED_SKILLS"
    if ne: "recs \<noteq> []" and rain: "\<forall>r\<in>set recs. weather_description r = ''Rain''"
  proof -
    from ne obtain r where r: "r \<in> set recs" by (cases recs) auto
    let ?adv = "\<lparr>rain = \<lparr>start = Finite 10, stop = PosInf, inc = True\<rparr>,
                  weather = ''Rain'', skill = ADVANCED_SKILLS\<rparr>"
    have "skill_value (skill ?adv) \<le> skill_value (best_skill example_rules recs 15)"
      using r rain by (intro best_skill_upper [of r]) (simp_all add: example_rules_def check_def)
    then have "3 \<le> skill_value (best_skill example_rules recs 15)" by simp
    then show ?thesis by (cases "best_skill example_rules recs 15") simp_all
  qed
  show ?thesis
    using best_skill_Max [of rules recs v] none adv check_finite
    by (intro conjI impI) simp_all
qed

theorem best_skill_is_max_witness:
  "best_skill example_rules
     [observation ''A'' 0 1000 0 (Some 15) ''Rain'', observation ''A'' 0 1000 0 (Some 15) ''Rain''] 15
     = ADVANCED_SKILLS
   \<and> best_skill example_rules [observation ''A'' 0 1000 0 (Some 15) ''Clouds''] 15 = NONE"
proof -
  let ?r = "observation ''A'' 0 1000 0 (Some 15) ''Rain''"
  let ?c = "observation ''A'' 0 1000 0 (Some 15) ''Clouds''"
  have 1: "best_skill example_rules [?r, ?r] 15 = ADVANCED_SKILLS"
    using best_skill_is_max [where rules = example_rules and recs = "[?r, ?r]" and v = 15]
    by (simp add: observation_def)
  have 2: "best_skill example_rules [?c] 15 = NONE"
    using best_skill_is_max [where rules = example_rules and recs = "[?c]" and v = 15]
    by (simp add: observation_def example_rules_def)
  from 1 2 show ?thesis by (intro conjI)
qed

text \<open>
  C6. The anchor of a river never goes up during the first pass: a group that is flooded
  by rain and lies closer to the river than the margin replaces the anchor by the
  smaller of the anchor so far (infinity when there is none) and the group's position
  along the river, and every other group leaves it as it is.
\<close>

theorem anchor_never_increases:
  "(process env st gs = Inr st'
      \<longrightarrow> fle (get_inf (river_flood st') river) (get_inf (river_flood st) river))
   \<and> (step env st0 (r # rest) = Inr st1 \<longrightarrow>
        (\<exists>d. map_of (data st1) (location_of r) = Some d
           \<and> get_inf (river_flood st1) river =
               (if rain_threshold env \<le> sum_list (rain_24h d) \<and> river \<in> set RIVER_NAMES
                   \<and> distance (RIVERS env river) (point_of env (location_of r)) < river_margin env
                then fmin (get_inf (river_flood st0) river)
                       (Finite (project (RIVERS env river) (point_of env (location_of r))))
                else get_inf (river_flood st0) river)))
   \<and> fmin a b = (if fle a b then a else b)"
proof (intro conjI impI)
  assume "process env st gs = Inr st'"
  then show "fle (get_inf (river_flood st') river) (get_inf (river_flood st) river)"
    by (rule process_anchor_mono)
next
  assume "step env st0 (r # rest) = Inr st1"
  then obtain d0 where d: "map_of (data st1) (location_of r) = Some (append_rain d0 r)"
    and rf: "river_flood st1 =
           (if sum_list (rain_24h (append_rain d0 r)) \<ge> rain_threshold env
            then update_anchors env (point_of env (location_of r)) (river_flood st0)
            else river_flood st0)"
    by (elim step_data_at)
  have "get_inf (river_flood st1) river =
               (if rain_threshold env \<le> sum_list (rain_24h (append_rain d0 r))
                   \<and> river \<in> set RIVER_NAMES
                   \<and> distance (RIVERS env river) (point_of env (location_of r)) < river_margin env
                then fmin (get_inf (river_flood st0) river)
                       (Finite (project (RIVERS env river) (point_of env (location_of r))))
                else get_inf (river_flood st0) river)"
    unfolding rf by (simp add: get_inf_update_anchors)
  with d show "\<exists>d. map_of (data st1) (location_of r) = Some d
           \<and> get_inf (river_flood st1) river =
               (if rain_threshold env \<le> sum_list (rain_24h d) \<and> river \<in> set RIVER_NAMES
                   \<and> distance (RIVERS env river) (point_of env (location_of r)) < river_margin env
                then fmin (get_inf (river_flood st0) river)
                       (Finite (project (RIVERS env river) (point_of env (location_of r))))
                else get_inf (river_flood st0) river)"
    by blast
next
  show "fmin a b = (if fle a b then a else b)" by (rule fmin_is_min)
qed

theorem anchor_never_increases_witness:
  "process example_env init (groups example_records) = Inr example_state
   \<and> fle (get_inf (river_flood example_state) ''Saar'') (get_inf (river_flood init) ''Saar'')
   \<and> (case step example_env example_state [observation ''E'' 0 200 10 (Some 70) ''Clouds''] of
        Inl e \<Rightarrow> False
      | Inr st1 \<Rightarrow> get_inf (river_flood example_state) ''Saar'' = Finite 1000
                   \<and> get_inf (river_flood st1) ''Saar'' = Finite 200)"
proof -
  let ?e = "observation ''E'' 0 200 10 (Some 70) ''Clouds''"
  have p: "process example_env init (groups example_records) = Inr example_state"
    using example_pass1 by (simp add: pass1_def)
  have m: "fle (get_inf (river_flood example_state) ''Saar'') (get_inf (river_flood init) ''Saar'')"
    using anchor_never_increases [where env = example_env and st = init
        and gs = "groups example_records" and st' = example_state and river = "''Saar''"] p
    by blast
  obtain st1 where s: "step example_env example_state [?e] = Inr st1"
    and d: "map_of (data st1) (location_of ?e)
              = Some \<lparr>loc = place ''E'' 200 10, dt_from = - 3600, dt_to = 0, rain_24h = [70]\<rparr>"
    by (simp add: example_defs run_defs example_state_def)
  have old: "get_inf (river_flood example_state) ''Saar'' = Finite 1000"
    by (simp add: example_state_def get_inf_def)
  have "get_inf (river_flood st1) ''Saar'' = Finite 200"
    using anchor_never_increases [where env = example_env and ?st0.0 = example_state
        and r = ?e and rest = "[]" and ?st1.0 = st1 and river = "''Saar''"] s d old
    by (simp add: example_defs location_of_def RIVER_NAMES_def point_of_def fmin_def flt_def)
  with s old have "case step example_env example_state [?e] of
        Inl e \<Rightarrow> False
      | Inr st1 \<Rightarrow> get_inf (river_flood example_state) ''Saar'' = Finite 1000
                   \<and> get_inf (river_flood st1) ''Saar'' = Finite 200"
    by simp
  with p m show ?thesis by (intro conjI)
qed

text \<open>
  C10. A place whose distance to a river equals the margin is not near it: flooded by
  rain, it leaves the river's anchor as it was, and the second pass does not print it
  with that river. Only a distance below the margin changes an anchor or prints a pair.
\<close>

theorem river_margin_is_strict:
  "(distance (RIVERS env river) (point_of env (location_of r)) = river_margin env \<longrightarrow>
      (location_of r, river) \<notin> set (pass2 env st2)
      \<and> (step env st (r # rest) = Inr st' \<longrightarrow> river_flood st' river = river_flood st river))
   \<and> ((l, river) \<in> set (pass2 env st2)
        \<longrightarrow> distance (RIVERS env river) (point_of env l) < river_margin env)
   \<and> (step env st (r # rest) = Inr st' \<and> river_flood st' river \<noteq> river_flood st river
        \<longrightarrow> distance (RIVERS env river) (point_of env (location_of r)) < river_margin env)"
proof -
  have keep: "river_flood st' river = river_flood st river"
    if s: "step env st (r # rest) = Inr st'"
      and far: "\<not> distance (RIVERS env river) (point_of env (location_of r)) < river_margin env"
  proof -
    from s obtain d0 where rf: "river_flood st' =
           (if sum_list (rain_24h (append_rain d0 r)) \<ge> rain_threshold env
            then update_anchors env (point_of env (location_of r)) (river_flood st)
            else river_flood st)"
      by (elim step_data_at)
    show ?thesis unfolding rf using far by (simp add: update_anchors_at)
  qed
  have out: "(l', river) \<in> set (pass2 env st2)
        \<Longrightarrow> distance (RIVERS env river) (point_of env l') < river_margin env" for l'
    unfolding pass2_iff by simp
  show ?thesis
    using keep out [of l] out [of "location_of r"] by (intro conjI impI) auto
qed

theorem river_margin_is_strict_witness:
  "distance (RIVERS example_env ''Saar'') (point_of example_env (place ''D'' 4000 1000))
     = river_margin example_env
   \<and> (place ''D'' 4000 1000, ''Saar'') \<notin> set (pass2 example_env example_state)
   \<and> (place ''B'' 3000 500, ''Saar'') \<in> set (pass2 example_env example_state)
   \<and> distance (RIVERS example_env ''Saar'') (point_of example_env (place ''B'' 3000 500))
        < river_margin example_env
   \<and> (case step example_env example_state [observation ''D'' 3600 4000 1000 (Some 70) ''Clouds''] of
        Inl e \<Rightarrow> False
      | Inr st' \<Rightarrow> river_flood st' ''Saar'' = Some (Finite 1000))
   \<and> (case step example_env example_state [observation ''E'' 0 200 10 (Some 70) ''Clouds''] of
        Inl e \<Rightarrow> False
      | Inr st' \<Rightarrow> river_flood st' ''Saar'' = Some (Finite 200))"
proof -
  let ?d = "observation ''D'' 3600 4000 1000 (Some 70) ''Clouds''"
  let ?e = "observation ''E'' 0 200 10 (Some 70) ''Clouds''"
  have ld: "location_of ?d = place ''D'' 4000 1000"
    by (simp add: location_of_def example_defs)
  have eq: "distance (RIVERS example_env ''Saar'') (point_of example_env (location_of ?d))
     = river_margin example_env"
    by (simp add: example_defs location_of_def point_of_def)
  obtain st' where s: "step example_env example_state [?d] = Inr st'"
    by (simp add: example_defs run_defs example_state_def)
  note inst = river_margin_is_strict [where env = example_env and river = "''Saar''" and r = ?d
      and ?st2.0 = example_state and st = example_state and rest = "[]" and st' = st'
      and l = "place ''B'' 3000 500"]
  from inst eq have 1: "(location_of ?d, ''Saar'') \<notin> set (pass2 example_env example_state)"
    by blast
  from inst eq s have "river_flood st' ''Saar'' = river_flood example_state ''Saar''"
    by blast
  then have 2: "river_flood st' ''Saar'' = Some (Finite 1000)"
    by (simp add: example_state_def)
  have 3: "(place ''B'' 3000 500, ''Saar'') \<in> set (pass2 example_env example_state)"
    by (simp add: example_pass2)
  with inst have 4: "distance (RIVERS example_env ''Saar'') (point_of example_env (place ''B'' 3000 500))
        < river_margin example_env"
    by blast
  obtain st'' where s2: "step example_env example_state [?e] = Inr st''"
    and a2: "river_flood st'' ''Saar'' = Some (Finite 200)"
    by (simp add: example_defs run_defs example_state_def)
  have "river_flood st'' ''Saar'' \<noteq> river_flood example_state ''Saar''"
    using a2 by (simp add: example_state_def)
  with s2 river_margin_is_strict [where env = example_env and river = "''Saar''" and r = ?e
      and st = example_state and rest = "[]" and st' = st'']
  have "distance (RIVERS example_env ''Saar'') (point_of example_env (location_of ?e))
          < river_margin example_env"
    by blast
  from eq 1 2 3 4 s s2 a2 show ?thesis
    unfolding ld by simp
qed

text \<open>
  C2. When the run has come through the group of a location at time t, the window of the
  location ends at t and the sum of its rain values, which is the rain_24h of that
  iteration, is the sum of the rain (0 for an absent one) of the groups of that location
  with a timestamp from t - 23 h to t. The window holds the last 24 values at most.
\<close>

theorem rolling_sum_is_last_24_hours:
  assumes "process env init (gs @ [r # rest]) = Inr st"
  shows "\<exists>d. map_of (data st) (location_of r) = Some d \<and> dt_to d = dt r
           \<and> sum_list (rain_24h d) =
               sum_list (map (rain_or_0 \<circ> hd)
                 (filter (\<lambda>g. location_of (hd g) = location_of r
                              \<and> dt r - 23 * 3600 \<le> dt (hd g) \<and> dt (hd g) \<le> dt r)
                    (gs @ [r # rest])))
           \<and> rain_24h d =
               map (rain_or_0 \<circ> hd)
                 (drop (length (groups_at (location_of r) (gs @ [r # rest])) - 24)
                    (groups_at (location_of r) (gs @ [r # rest])))
           \<and> length (rain_24h d) \<le> 24"
proof -
  let ?l = "location_of r" and ?gs = "gs @ [r # rest]"
  from process_snoc_Inr [OF assms] obtain st0 where "step env st0 (r # rest) = Inr st"
    by blast
  then obtain d0 where oe: "open_or_extend (data st0) r = Inr d0"
    and m: "map_of (data st) ?l = Some (append_rain d0 r)"
    by (elim step_data_at)
  let ?d = "append_rain d0 r"
  from oe have "dt_to d0 = dt r"
    by (auto simp: open_or_extend_def Let_def split: option.splits if_splits)
  then have t: "dt_to ?d = dt r" by (simp add: append_rain_fields)
  from windows_okD_Some [OF process_windows_ok [OF assms] m]
  have w: "window_ok ?l (groups_at ?l ?gs) ?d" .
  from window_sum [OF w] t
  have s: "sum_list (rain_24h ?d) =
               sum_list (map (rain_or_0 \<circ> hd)
                 (filter (\<lambda>g. location_of (hd g) = ?l
                              \<and> dt r - 23 * 3600 \<le> dt (hd g) \<and> dt (hd g) \<le> dt r) ?gs))"
    by (simp add: filter_groups_at)
  from w have rs: "rain_24h ?d =
      map (rain_or_0 \<circ> hd) (drop (length (groups_at ?l ?gs) - 24) (groups_at ?l ?gs))"
    by (simp add: window_ok_def)
  then have "length (rain_24h ?d) \<le> 24" by simp
  with m t s rs show ?thesis by blast
qed


theorem rolling_sum_is_last_24_hours_witness:
  "case process example_env init
          (example_hours 24 @ [observation ''A'' 90000 1000 0 (Some 25) ''Clouds'' # []]) of
     Inl e \<Rightarrow> False
   | Inr st \<Rightarrow>
       (case map_of (data st) (place ''A'' 1000 0) of
          None \<Rightarrow> False
        | Some d \<Rightarrow> dt_to d = 90000 \<and> sum_list (rain_24h d) = 324 \<and> length (rain_24h d) = 24)"
proof -
  let ?r = "observation ''A'' 90000 1000 0 (Some 25) ''Clouds''"
  obtain st where p: "process example_env init (example_hours 24 @ [?r # []]) = Inr st"
    by (simp add: example_hours_def upto.simps example_defs run_defs)
  have l: "location_of ?r = place ''A'' 1000 0"
    by (simp add: location_of_def example_defs)
  from rolling_sum_is_last_24_hours [OF p] obtain d
    where m: "map_of (data st) (location_of ?r) = Some d" and t: "dt_to d = dt ?r"
      and s: "sum_list (rain_24h d) =
               sum_list (map (rain_or_0 \<circ> hd)
                 (filter (\<lambda>g. location_of (hd g) = location_of ?r
                              \<and> dt ?r - 23 * 3600 \<le> dt (hd g) \<and> dt (hd g) \<le> dt ?r)
                    (example_hours 24 @ [?r # []])))"
      and w: "rain_24h d =
               map (rain_or_0 \<circ> hd)
                 (drop (length (groups_at (location_of ?r) (example_hours 24 @ [?r # []])) - 24)
                    (groups_at (location_of ?r) (example_hours 24 @ [?r # []])))"
    by blast
  from t have t': "dt_to d = 90000" by (simp add: observation_def)
  from s have s': "sum_list (rain_24h d) = 324"
    by (simp add: example_hours_def upto.simps observation_def location_of_def rain_or_0_def)
  from w have w': "length (rain_24h d) = 24"
    by (simp add: example_hours_def upto.simps observation_def location_of_def groups_at_def)
  from p m l t' s' w' show ?thesis by simp
qed

text \<open>
  C3. A location is in the set of places flooded by rain exactly when the rain sum of one
  of its groups, taken when the run has come through that group, is at least the
  threshold. A sum equal to the threshold counts.
\<close>

theorem rain_flood_iff:
  assumes "process env init gs = Inr st"
  shows "l \<in> rain_flood st \<longleftrightarrow>
     (\<exists>k<length gs. \<exists>stk d. process env init (take (Suc k) gs) = Inr stk
        \<and> location_of (hd (gs ! k)) = l \<and> map_of (data stk) l = Some d
        \<and> rain_threshold env \<le> sum_list (rain_24h d))"
  using assms by (rule process_rain_flood)

theorem rain_flood_iff_witness:
  "case process example_env init [[observation ''X'' 0 7 7 (Some 20) ''Clouds''],
                                  [observation ''X'' 3600 7 7 (Some 30) ''Clouds'']] of
     Inl e \<Rightarrow> False
   | Inr st \<Rightarrow> place ''X'' 7 7 \<in> rain_flood st \<and> place ''A'' 1000 0 \<notin> rain_flood st
                \<and> (case map_of (data st) (place ''X'' 7 7) of None \<Rightarrow> False
                    | Some d \<Rightarrow> sum_list (rain_24h d) = rain_threshold example_env)"
proof -
  let ?x = "observation ''X'' 0 7 7 (Some 20) ''Clouds''"
  let ?y = "observation ''X'' 3600 7 7 (Some 30) ''Clouds''"
  obtain st d where p: "process example_env init [[?x], [?y]] = Inr st"
    and m: "map_of (data st) (place ''X'' 7 7) = Some d"
    and t: "sum_list (rain_24h d) = 50"
    by (simp add: example_defs run_defs)
  have "\<exists>k<length [[?x], [?y]]. \<exists>stk d. process example_env init (take (Suc k) [[?x], [?y]]) = Inr stk
        \<and> location_of (hd ([[?x], [?y]] ! k)) = place ''X'' 7 7
        \<and> map_of (data stk) (place ''X'' 7 7) = Some d
        \<and> rain_threshold example_env \<le> sum_list (rain_24h d)"
  proof (intro exI conjI)
    show "Suc 0 < length [[?x], [?y]]" by simp
    show "process example_env init (take (Suc (Suc 0)) [[?x], [?y]]) = Inr st"
      using p by simp
    show "location_of (hd ([[?x], [?y]] ! Suc 0)) = place ''X'' 7 7"
      by (simp add: location_of_def example_defs)
    show "map_of (data st) (place ''X'' 7 7) = Some d" by (rule m)
    show "rain_threshold example_env \<le> sum_list (rain_24h d)"
      using t by (simp add: example_env_def)
  qed
  with rain_flood_iff [OF p, of "place ''X'' 7 7"] have in_x: "place ''X'' 7 7 \<in> rain_flood st"
    by blast
  have "location_of (hd ([[?x], [?y]] ! k)) \<noteq> place ''A'' 1000 0"
    if "k < length [[?x], [?y]]" for k
  proof -
    from that have "k = 0 \<or> k = Suc 0" by auto
    then show ?thesis by (auto simp: location_of_def example_defs)
  qed
  then have "\<not> (\<exists>k<length [[?x], [?y]]. \<exists>stk d.
          process example_env init (take (Suc k) [[?x], [?y]]) = Inr stk
        \<and> location_of (hd ([[?x], [?y]] ! k)) = place ''A'' 1000 0
        \<and> map_of (data stk) (place ''A'' 1000 0) = Some d
        \<and> rain_threshold example_env \<le> sum_list (rain_24h d))"
    by blast
  with rain_flood_iff [OF p, of "place ''A'' 1000 0"]
  have out_a: "place ''A'' 1000 0 \<notin> rain_flood st"
    by blast
  from p m t in_x out_a show ?thesis by (simp add: example_env_def)
qed

text \<open>
  C4. When a location has a window, a group of that location whose timestamp is not the
  end of the window plus 3600 stops the run with the continuity error, be the timestamp
  later, earlier or the same.
\<close>

theorem gap_raises_continuity_error:
  assumes "process env init gs = Inr st"
    and "map_of (data st) (location_of r) = Some d"
    and "dt r \<noteq> dt_to d + 3600"
  shows "step env st (r # rest) = Inl (ContinuityError (location_of r) (dt_to d + 3600) r)
     \<and> process env init (gs @ (r # rest) # later)
         = Inl (ContinuityError (location_of r) (dt_to d + 3600) r)
     \<and> (groups records = gs @ (r # rest) # later
          \<longrightarrow> main env records = Inl (ContinuityError (location_of r) (dt_to d + 3600) r))"
proof -
  from window_loc [OF assms(1,2)] have "loc d = location_of r" .
  from step_gap [OF assms(2) this assms(3)]
  have 1: "step env st (r # rest) = Inl (ContinuityError (location_of r) (dt_to d + 3600) r)" .
  then have 2: "process env init (gs @ (r # rest) # later)
         = Inl (ContinuityError (location_of r) (dt_to d + 3600) r)"
    using assms(1) by (simp add: process_append)
  then have 3: "groups records = gs @ (r # rest) # later
          \<longrightarrow> main env records = Inl (ContinuityError (location_of r) (dt_to d + 3600) r)"
    by (simp add: main_def pass1_def)
  from 1 2 3 show ?thesis by (intro conjI)
qed

theorem gap_raises_continuity_error_witness:
  "main example_env
     [observation ''A'' 0 1000 0 (Some 1) ''Rain'',
      observation ''A'' 3600 1000 0 (Some 1) ''Rain'',
      observation ''A'' 10800 1000 0 (Some 1) ''Rain'']
   = Inl (ContinuityError (place ''A'' 1000 0) 7200 (observation ''A'' 10800 1000 0 (Some 1) ''Rain''))"
proof -
  let ?r0 = "observation ''A'' 0 1000 0 (Some 1) ''Rain''"
  let ?r1 = "observation ''A'' 3600 1000 0 (Some 1) ''Rain''"
  let ?r3 = "observation ''A'' 10800 1000 0 (Some 1) ''Rain''"
  have g: "groups [?r0, ?r1, ?r3] = [[?r0], [?r1]] @ (?r3 # []) # []"
    by (simp add: groups_def observation_def sort_keyfn_def group_keyfn_def)
  have l: "location_of ?r3 = place ''A'' 1000 0"
    by (simp add: location_of_def example_defs)
  obtain st d where p: "process example_env init [[?r0], [?r1]] = Inr st"
    and m: "map_of (data st) (place ''A'' 1000 0) = Some d"
    and t: "dt_to d = 3600"
    by (simp add: example_defs run_defs)
  from t have ne: "dt ?r3 \<noteq> dt_to d + 3600" by (simp add: observation_def)
  from gap_raises_continuity_error [OF p m [folded l] ne, where rest = "[]"
      and records = "[?r0, ?r1, ?r3]" and later = "[]"] g
  have "main example_env [?r0, ?r1, ?r3]
          = Inl (ContinuityError (location_of ?r3) (dt_to d + 3600) ?r3)"
    by blast
  with l t show ?thesis by simp
qed

text \<open>
  C8, as the code has it. The window of a location starts one hour before the first
  group of the location and the start never moves, so after n groups the end is
  3600 n past the start, while the sequence holds the last min n 24 values: the
  difference is 3600 times the length of the sequence as long as nothing was dropped. A
  new window opens from timestamp - 3600 to timestamp.
\<close>

theorem window_span:
  assumes "process env init gs = Inr st" and "map_of (data st) l = Some d"
  shows "dt_to d - dt_from d = 3600 * int (length (groups_at l gs))
     \<and> length (rain_24h d) = min 24 (length (groups_at l gs))
     \<and> rain_24h d = map (rain_or_0 \<circ> hd) (drop (length (groups_at l gs) - 24) (groups_at l gs))
     \<and> (length (groups_at l gs) \<le> 24
          \<longrightarrow> dt_to d - dt_from d = 3600 * int (length (rain_24h d)))
     \<and> (map_of dat (location_of r) = None \<longrightarrow>
          open_or_extend dat r =
            Inr \<lparr>loc = location_of r, dt_from = dt r - 3600, dt_to = dt r, rain_24h = []\<rparr>)"
proof -
  from windows_okD_Some [OF process_windows_ok [OF assms(1)] assms(2)]
  have w: "window_ok l (groups_at l gs) d" .
  then have 1: "dt_to d - dt_from d = 3600 * int (length (groups_at l gs))"
    and 3: "rain_24h d = map (rain_or_0 \<circ> hd) (drop (length (groups_at l gs) - 24) (groups_at l gs))"
    by (simp_all add: window_ok_def)
  from 3 have 2: "length (rain_24h d) = min 24 (length (groups_at l gs))"
    by simp
  from 1 2 have 4: "length (groups_at l gs) \<le> 24
          \<longrightarrow> dt_to d - dt_from d = 3600 * int (length (rain_24h d))"
    by simp
  have 5: "map_of dat (location_of r) = None \<longrightarrow>
          open_or_extend dat r =
            Inr \<lparr>loc = location_of r, dt_from = dt r - 3600, dt_to = dt r, rain_24h = []\<rparr>"
    by (simp add: open_or_extend_fresh)
  from 1 2 3 4 5 show ?thesis by (intro conjI)
qed

theorem window_span_witness:
  "case process example_env init (example_hours 25) of
     Inl e \<Rightarrow> False
   | Inr st \<Rightarrow>
       (case map_of (data st) (place ''A'' 1000 0) of
          None \<Rightarrow> False
        | Some d \<Rightarrow> dt_to d - dt_from d = 3600 * 26 \<and> length (rain_24h d) = 24)"
proof -
  obtain st d where p: "process example_env init (example_hours 25) = Inr st"
    and m: "map_of (data st) (place ''A'' 1000 0) = Some d"
    by (simp add: example_hours_def upto.simps example_defs run_defs)
  have n: "length (groups_at (place ''A'' 1000 0) (example_hours 25)) = 26"
    by (simp add: example_hours_def upto.simps groups_at_def location_of_def example_defs)
  from window_span [OF p m] n
  have "dt_to d - dt_from d = 3600 * 26" and "length (rain_24h d) = 24"
    by simp_all
  with p m show ?thesis by simp
qed

theorem window_span_counterexample:
  "pass1 example_env example_records = Inr example_state
   \<and> map_of (data example_state) (place ''A'' 1000 0) = Some example_window
   \<and> rain_24h example_window = [60]
   \<and> dt_to example_window - dt_from example_window = 3600
   \<and> 3600 * (int (length (rain_24h example_window)) - 1) = 0"
  using example_pass1 by (simp add: example_state_def example_window_def place_def)

text \<open>
  C7, as the code has it. The records are sorted by the whole tuple with the rain set
  to 0, and the groups are the maximal runs of sorted records that agree in every field
  but the weather description: city name, timestamp, latitude, longitude and rain. No
  group is empty, all records of a group have the key of its first, and two groups that
  follow each other have different keys.
\<close>

theorem groups_are_runs_of_equal_keys:
  "concat (groups records) = sort_key sort_keyfn records
   \<and> sorted (map sort_keyfn (concat (groups records)))
   \<and> set (concat (groups records)) = set records
   \<and> (\<forall>g\<in>set (groups records). g \<noteq> [] \<and> (\<forall>x\<in>set g. group_keyfn x = group_keyfn (hd g)))
   \<and> (\<forall>i. Suc i < length (groups records) \<longrightarrow>
          group_keyfn (hd (groups records ! i)) \<noteq> group_keyfn (hd (groups records ! Suc i)))
   \<and> group_keyfn x = (Record.city_name x, dt x, Record.lat x, Record.lon x, rain_1h x)
   \<and> sort_keyfn x = (Record.city_name x, dt x, Record.lat x, Record.lon x, 0, weather_description x)"
proof (intro conjI ballI allI impI)
  show "concat (groups records) = sort_key sort_keyfn records" by (rule groups_concat)
  show "sorted (map sort_keyfn (concat (groups records)))" by (simp add: groups_concat)
  show "set (concat (groups records)) = set records" by (simp only: groups_concat set_sort)
  show "g \<noteq> []" if "g \<in> set (groups records)" for g using that by (rule groups_nonempty)
  show "group_keyfn y = group_keyfn (hd g)" if "g \<in> set (groups records)" "y \<in> set g" for g y
    using that by (rule groups_same_key)
  show "group_keyfn (hd (groups records ! i)) \<noteq> group_keyfn (hd (groups records ! Suc i))"
    if "Suc i < length (groups records)" for i using that by (rule groups_adjacent)
  show "group_keyfn x = (Record.city_name x, dt x, Record.lat x, Record.lon x, rain_1h x)"
    by (simp add: group_keyfn_def)
  show "sort_keyfn x = (Record.city_name x, dt x, Record.lat x, Record.lon x, 0, weather_description x)"
    by (simp add: sort_keyfn_def)
qed

theorem groups_are_runs_of_equal_keys_witness:
  "groups example_records =
     [[observation ''A'' 0 1000 0 (Some 60) ''Rain''],
      [observation ''B'' 0 3000 500 (Some 20) ''Clouds''],
      [observation ''C'' 0 500 (-200) (Some 20) ''Clouds''],
      [observation ''D'' 0 4000 1000 None ''Clouds'']]
   \<and> group_keyfn (hd (groups example_records ! 0)) \<noteq> group_keyfn (hd (groups example_records ! Suc 0))
   \<and> hd (groups example_records ! 0) \<in> set example_records"
proof -
  note inst = groups_are_runs_of_equal_keys [where records = example_records]
  have l: "Suc 0 < length (groups example_records)" by (simp add: example_groups)
  with inst have 1: "group_keyfn (hd (groups example_records ! 0))
                       \<noteq> group_keyfn (hd (groups example_records ! Suc 0))"
    by blast
  from l have "0 < length (groups example_records)" by arith
  then have "groups example_records ! 0 \<in> set (groups example_records)"
    by (rule nth_mem)
  with inst have "groups example_records ! 0 \<noteq> []" by blast
  then have "hd (groups example_records ! 0) \<in> set (concat (groups example_records))"
    using l by (simp add: example_groups)
  with inst have 2: "hd (groups example_records ! 0) \<in> set example_records" by blast
  from example_groups 1 2 show ?thesis by (intro conjI)
qed

theorem groups_by_location_counterexample:
  "groups [observation ''A'' 0 1000 0 (Some 1) ''Rain'', observation ''A'' 3600 1000 0 (Some 1) ''Rain'']
     = [[observation ''A'' 0 1000 0 (Some 1) ''Rain''], [observation ''A'' 3600 1000 0 (Some 1) ''Rain'']]
   \<and> location_of (observation ''A'' 0 1000 0 (Some 1) ''Rain'')
       = location_of (observation ''A'' 3600 1000 0 (Some 1) ''Rain'')
   \<and> groups [observation ''A'' 0 1000 0 (Some 1) ''Fog'', observation ''A'' 0 1000 0 (Some 2) ''Rain'']
     = [[observation ''A'' 0 1000 0 (Some 1) ''Fog''], [observation ''A'' 0 1000 0 (Some 2) ''Rain'']]"
  by (simp add: groups_def observation_def sort_keyfn_def group_keyfn_def location_of_def)

text \<open>
  C9, as the code has it. Records that differ in the weather description only come out
  as one group, provided no other record of the same location and timestamp has another
  rain value (such a record can sort between them and cut the run). A group of several
  records stops with the continuity error exactly when its first record alone would; when
  it goes through, one rain value is appended to the window, and the skill evaluation
  reads the weather description of every record of the group.
\<close>

theorem duplicates_form_one_group:
  assumes "r \<in> set records"
    and "\<forall>x\<in>set records. location_of x = location_of r \<and> dt x = dt r
           \<longrightarrow> rain_1h x = rain_1h r"
  shows "filter (\<lambda>g. group_keyfn (hd g) = group_keyfn r) (groups records)
           = [sort_key sort_keyfn (filter (\<lambda>x. group_keyfn x = group_keyfn r) records)]
     \<and> (step env st (x # rest) = Inl (ContinuityError l t y)
          \<longleftrightarrow> step env st [x] = Inl (ContinuityError l t y))
     \<and> (step env st (x # rest) = Inr st' \<longrightarrow>
          (\<exists>d0. open_or_extend (data st) x = Inr d0
             \<and> map_of (data st') (location_of x) = Some (append_rain d0 x)
             \<and> rain_24h (append_rain d0 x) =
                 (if 24 \<le> length (rain_24h d0) then tl (rain_24h d0 @ [rain_or_0 x])
                  else rain_24h d0 @ [rain_or_0 x])
             \<and> (best_skill (RAIN_TO_SKILLS env) (x # rest)
                   (sum_list (rain_24h (append_rain d0 x))) = NONE
                   \<and> printed st' = printed st
                 \<or> (\<exists>date. printed st' = printed st @
                       [(location_of x,
                         best_skill (RAIN_TO_SKILLS env) (x # rest)
                           (sum_list (rain_24h (append_rain d0 x))),
                         date)]))))
     \<and> (z \<in> set (x # rest) \<and> r2s \<in> set rules \<and> weather r2s = weather_description z
          \<and> check (rain r2s) v
          \<longrightarrow> skill_value (skill r2s) \<le> skill_value (best_skill rules (x # rest) v))"
proof (intro conjI impI)
  show "filter (\<lambda>g. group_keyfn (hd g) = group_keyfn r) (groups records)
           = [sort_key sort_keyfn (filter (\<lambda>x. group_keyfn x = group_keyfn r) records)]"
    using assms by (rule groups_one_run)
  show "step env st (x # rest) = Inl (ContinuityError l t y)
          \<longleftrightarrow> step env st [x] = Inl (ContinuityError l t y)"
    by (simp only: step_ContinuityError)
next
  assume s: "step env st (x # rest) = Inr st'"
  from s obtain d0 where oe: "open_or_extend (data st) x = Inr d0"
    and m: "map_of (data st') (location_of x) = Some (append_rain d0 x)"
    by (elim step_data_at)
  from s obtain d1 where oe1: "open_or_extend (data st) x = Inr d1"
    and pr: "best_skill (RAIN_TO_SKILLS env) (x # rest) (sum_list (rain_24h (append_rain d1 x))) = NONE
           \<and> printed st' = printed st
         \<or> (\<exists>date. utcfromtimestamp env (dt (last (x # rest))) = Some date
              \<and> printed st' = printed st @
                  [(location_of x,
                    best_skill (RAIN_TO_SKILLS env) (x # rest) (sum_list (rain_24h (append_rain d1 x))),
                    date)])"
    by (elim step_printed)
  from oe oe1 have d1: "d1 = d0" by simp
  have a: "rain_24h (append_rain d0 x) =
                 (if 24 \<le> length (rain_24h d0) then tl (rain_24h d0 @ [rain_or_0 x])
                  else rain_24h d0 @ [rain_or_0 x])"
    by (simp add: append_rain_def Let_def)
  from pr [unfolded d1]
  have p: "best_skill (RAIN_TO_SKILLS env) (x # rest)
                   (sum_list (rain_24h (append_rain d0 x))) = NONE
                   \<and> printed st' = printed st
                 \<or> (\<exists>date. printed st' = printed st @
                       [(location_of x,
                         best_skill (RAIN_TO_SKILLS env) (x # rest)
                           (sum_list (rain_24h (append_rain d0 x))),
                         date)])"
    by blast
  from oe m a p
  show "\<exists>d0. open_or_extend (data st) x = Inr d0
             \<and> map_of (data st') (location_of x) = Some (append_rain d0 x)
             \<and> rain_24h (append_rain d0 x) =
                 (if 24 \<le> length (rain_24h d0) then tl (rain_24h d0 @ [rain_or_0 x])
                  else rain_24h d0 @ [rain_or_0 x])
             \<and> (best_skill (RAIN_TO_SKILLS env) (x # rest)
                   (sum_list (rain_24h (append_rain d0 x))) = NONE
                   \<and> printed st' = printed st
                 \<or> (\<exists>date. printed st' = printed st @
                       [(location_of x,
                         best_skill (RAIN_TO_SKILLS env) (x # rest)
                           (sum_list (rain_24h (append_rain d0 x))),
                         date)]))"
    by blast
next
  assume "z \<in> set (x # rest) \<and> r2s \<in> set rules \<and> weather r2s = weather_description z
          \<and> check (rain r2s) v"
  then show "skill_value (skill r2s) \<le> skill_value (best_skill rules (x # rest) v)"
    using best_skill_upper [of z "x # rest" r2s rules v] by blast
qed

theorem duplicates_form_one_group_witness:
  "filter (\<lambda>g. group_keyfn (hd g) = group_keyfn (observation ''A'' 0 1000 0 (Some 1) ''Rain''))
     (groups [observation ''A'' 0 1000 0 (Some 1) ''Rain'',
              observation ''B'' 0 3000 500 (Some 1) ''Rain'',
              observation ''A'' 0 1000 0 (Some 1) ''Fog''])
     = [[observation ''A'' 0 1000 0 (Some 1) ''Fog'', observation ''A'' 0 1000 0 (Some 1) ''Rain'']]
   \<and> (case step example_env init
               [observation ''A'' 0 1000 0 (Some 1) ''Fog'', observation ''A'' 0 1000 0 (Some 1) ''Rain''] of
         Inl e \<Rightarrow> False
       | Inr st' \<Rightarrow>
           map_of (data st') (place ''A'' 1000 0)
             = Some \<lparr>loc = place ''A'' 1000 0, dt_from = - 3600, dt_to = 0, rain_24h = [1]\<rparr>
           \<and> printed st' = [(place ''A'' 1000 0, BASIC_SKILLS, [])])"
proof -
  let ?a = "observation ''A'' 0 1000 0 (Some 1) ''Rain''"
  let ?b = "observation ''B'' 0 3000 500 (Some 1) ''Rain''"
  let ?c = "observation ''A'' 0 1000 0 (Some 1) ''Fog''"
  have mem: "?a \<in> set [?a, ?b, ?c]" by simp
  have same: "\<forall>x\<in>set [?a, ?b, ?c]. location_of x = location_of ?a \<and> dt x = dt ?a
           \<longrightarrow> rain_1h x = rain_1h ?a"
    by (simp add: observation_def)
  obtain st' where s: "step example_env init [?c, ?a] = Inr st'"
    and m: "map_of (data st') (place ''A'' 1000 0)
             = Some \<lparr>loc = place ''A'' 1000 0, dt_from = - 3600, dt_to = 0, rain_24h = [1]\<rparr>"
    and pr: "printed st' = [(place ''A'' 1000 0, BASIC_SKILLS, [])]"
    by (simp add: example_defs run_defs)
  note inst = duplicates_form_one_group [OF mem same, where env = example_env and st = init
      and x = ?c and rest = "[?a]" and st' = st' and z = ?a and rules = example_rules and v = 1
      and ?r2s.0 = "hd example_rules"]
  from inst have one: "filter (\<lambda>g. group_keyfn (hd g) = group_keyfn ?a) (groups [?a, ?b, ?c])
           = [sort_key sort_keyfn (filter (\<lambda>x. group_keyfn x = group_keyfn ?a) [?a, ?b, ?c])]"
    by (rule conjunct1)
  have "sort_key sort_keyfn (filter (\<lambda>x. group_keyfn x = group_keyfn ?a) [?a, ?b, ?c]) = [?c, ?a]"
    by (simp add: observation_def sort_keyfn_def group_keyfn_def)
  with one have g: "filter (\<lambda>g. group_keyfn (hd g) = group_keyfn ?a) (groups [?a, ?b, ?c])
                      = [[?c, ?a]]"
    by simp
  from s m pr g show ?thesis by simp
qed

theorem duplicates_split_counterexample:
  "group_keyfn (observation ''A'' 0 1000 0 (Some 1) ''Fog'')
     = group_keyfn (observation ''A'' 0 1000 0 (Some 1) ''Rain'')
   \<and> groups [observation ''A'' 0 1000 0 (Some 1) ''Fog'',
             observation ''A'' 0 1000 0 (Some 1) ''Rain'',
             observation ''A'' 0 1000 0 (Some 2) ''Mist'']
       = [[observation ''A'' 0 1000 0 (Some 1) ''Fog''],
          [observation ''A'' 0 1000 0 (Some 2) ''Mist''],
          [observation ''A'' 0 1000 0 (Some 1) ''Rain'']]
   \<and> main example_env
         [observation ''A'' 0 1000 0 (Some 1) ''Fog'',
          observation ''A'' 0 1000 0 (Some 1) ''Rain'',
          observation ''A'' 0 1000 0 (Some 2) ''Mist'']
       = Inl (ContinuityError (place ''A'' 1000 0) 3600
                (observation ''A'' 0 1000 0 (Some 2) ''Mist''))"
proof -
  let ?a = "observation ''A'' 0 1000 0 (Some 1) ''Fog''"
  let ?c = "observation ''A'' 0 1000 0 (Some 1) ''Rain''"
  let ?b = "observation ''A'' 0 1000 0 (Some 2) ''Mist''"
  have k: "group_keyfn ?a = group_keyfn ?c"
    by (simp add: group_keyfn_def observation_def)
  have g: "groups [?a, ?c, ?b] = [[?a], [?b], [?c]]"
    by (simp add: groups_def observation_def sort_keyfn_def group_keyfn_def)
  have m: "main example_env [?a, ?c, ?b] = Inl (ContinuityError (place ''A'' 1000 0) 3600 ?b)"
    unfolding main_def pass1_def g by (simp add: example_defs run_defs)
  from k g m show ?thesis by (intro conjI)
qed

end
